theory Spec2Isabelle
  imports Complex_Main "HOL-Library.Multiset" "HOL-Library.Char_ord" "HOL-Library.List_Lexorder"
begin

section \<open>Document values\<close>

text \<open>
  The values a Firestore document can hold, as the scripts see them at run time.
  A JavaScript number is a double: a finite one is the rational it denotes, and the
  three non-finite ones are constructors of their own. Timestamps, geopoints and document
  references are instances of the three Firestore classes the scripts test for.
  \<open>VObject\<close> is any other value whose \<open>Object.prototype.toString\<close> tag is
  \<open>[object Object]\<close>: a plain object (a Firestore map), and as well an instance of a
  class without a string tag (a Firestore \<open>VectorValue\<close>, say), which neither that tag
  nor \<open>Object.entries\<close> tells from a plain object. It is the list of its own enumerable
  entries in the order \<open>Object.entries\<close> yields them; a JavaScript object has every key
  once, which \<open>wf_value\<close> below records. \<open>VOther\<close> is what remains: \<open>undefined\<close>,
  a function, a symbol, a bigint, and an object with another tag (a \<open>Date\<close>, a \<open>Map\<close>,
  a boxed primitive, a typed array that is not a \<open>Uint8Array\<close>). Firestore stores none of
  these; they are in the type so that the classifier is modelled on every value.
\<close>

datatype other = Undefined | Function | Symbol | BigInt | Tagged

datatype jsnumber = Finite rat | NaN | PosInfinity | NegInfinity

datatype jsval =
    VNull
  | VTimestamp int int
  | VGeoPoint rat rat
  | VReference string
  | VBytes "nat list"
  | VArray "jsval list"
  | VString string
  | VBoolean bool
  | VNumber jsnumber
  | VObject "(string \<times> jsval) list"
  | VOther other

text \<open>Every key of every object occurs once (at every depth).\<close>

fun wf_value :: "jsval \<Rightarrow> bool" where
  "wf_value (VArray els) = list_all wf_value els"
| "wf_value (VObject entries) =
     (distinct (map fst entries) \<and> list_all (\<lambda>e. wf_value (snd e)) entries)"
| "wf_value v = True"

definition wf_doc :: "(string \<times> jsval) list \<Rightarrow> bool" where
  "wf_doc obj = wf_value (VObject obj)"

section \<open>The kind classifier (inferSchema.js, lintCollectionSchema.js: detectKind)\<close>

datatype Kind = KNull | KBoolean | KNumber | KString | KTimestamp | KGeopoint
  | KReference | KBytes | KArray | KObject | KUnknown

text \<open>The kind tags are strings in the source.\<close>

fun kind_name :: "Kind \<Rightarrow> string" where
  "kind_name KNull = ''null''"
| "kind_name KBoolean = ''boolean''"
| "kind_name KNumber = ''number''"
| "kind_name KString = ''string''"
| "kind_name KTimestamp = ''timestamp''"
| "kind_name KGeopoint = ''geopoint''"
| "kind_name KReference = ''reference''"
| "kind_name KBytes = ''bytes''"
| "kind_name KArray = ''array''"
| "kind_name KObject = ''object''"
| "kind_name KUnknown = ''unknown''"

text \<open>
  \<open>Object.prototype.toString.call(v) === "[object Object]"\<close>: true of a plain object and
  of an instance of a class without a string tag (the three Firestore classes, and the
  instances that \<open>VObject\<close> covers), false of null, of arrays, of byte buffers, of
  primitives, of functions and of objects with another tag.
\<close>

fun isPlainObject :: "jsval \<Rightarrow> bool" where
  "isPlainObject (VObject entries) = True"
| "isPlainObject (VTimestamp s n) = True"
| "isPlainObject (VGeoPoint la lo) = True"
| "isPlainObject (VReference p) = True"
| "isPlainObject v = False"

fun instanceof_Timestamp :: "jsval \<Rightarrow> bool" where
  "instanceof_Timestamp (VTimestamp s n) = True"
| "instanceof_Timestamp v = False"

fun instanceof_GeoPoint :: "jsval \<Rightarrow> bool" where
  "instanceof_GeoPoint (VGeoPoint la lo) = True"
| "instanceof_GeoPoint v = False"

fun instanceof_DocumentReference :: "jsval \<Rightarrow> bool" where
  "instanceof_DocumentReference (VReference p) = True"
| "instanceof_DocumentReference v = False"

text \<open>\<open>Buffer.isBuffer(v) || v instanceof Uint8Array\<close>\<close>

fun isBytes :: "jsval \<Rightarrow> bool" where
  "isBytes (VBytes bs) = True"
| "isBytes v = False"

fun Array_isArray :: "jsval \<Rightarrow> bool" where
  "Array_isArray (VArray els) = True"
| "Array_isArray v = False"

fun typeof :: "jsval \<Rightarrow> string" where
  "typeof (VString s) = ''string''"
| "typeof (VBoolean b) = ''boolean''"
| "typeof (VNumber n) = ''number''"
| "typeof (VOther Undefined) = ''undefined''"
| "typeof (VOther Function) = ''function''"
| "typeof (VOther Symbol) = ''symbol''"
| "typeof (VOther BigInt) = ''bigint''"
| "typeof v = ''object''"

text \<open>
  The chain of tests of \<open>detectKind\<close>, in the order of the source; the two scripts have
  the same function text. The classes are those of \<open>admin.firestore\<close>: this is the chain
  where the name \<open>admin\<close> is bound to the firebase-admin module.
\<close>

definition detectKind :: "jsval \<Rightarrow> Kind" where
  "detectKind v =
    (if v = VNull then KNull
     else if instanceof_Timestamp v then KTimestamp
     else if instanceof_GeoPoint v then KGeopoint
     else if instanceof_DocumentReference v then KReference
     else if isBytes v then KBytes
     else if Array_isArray v then KArray
     else let t = typeof v in
       if t = ''string'' then KString
       else if t = ''boolean'' then KBoolean
       else if t = ''number'' then KNumber
       else if isPlainObject v then KObject
       else KUnknown)"

text \<open>
  The binding of \<open>admin\<close>. \<open>lintCollectionSchema.js\<close> declares it
  (\<open>const admin = require("firebase-admin")\<close>); \<open>inferSchema.js\<close> requires only \<open>db\<close>
  and has no declaration of \<open>admin\<close>, so that reading the name there raises a
  ReferenceError. \<open>detectKind\<close> reads it in its second test,
  \<open>v instanceof admin.firestore.Timestamp\<close>, after \<open>v === null\<close> has returned for null.
  \<open>detectKind_in\<close> is the function as each script runs it. The aggregation and the
  summarizer of \<open>inferSchema.js\<close> are modelled below on the chain \<open>detectKind\<close>, that
  is, as they run once the script has the declaration.
\<close>

datatype script = InferSchema | LintCollectionSchema

datatype failure = ReferenceError | TypeError

fun declares_admin :: "script \<Rightarrow> bool" where
  "declares_admin InferSchema = False"
| "declares_admin LintCollectionSchema = True"

definition read_admin :: "script \<Rightarrow> failure + unit" where
  "read_admin s = (if declares_admin s then Inr () else Inl ReferenceError)"

definition detectKind_in :: "script \<Rightarrow> jsval \<Rightarrow> failure + Kind" where
  "detectKind_in s v =
    (if v = VNull then Inr KNull
     else case read_admin s of
            Inl err \<Rightarrow> Inl err
          | Inr _ \<Rightarrow> Inr (detectKind v))"

fun Number_isInteger :: "jsnumber \<Rightarrow> bool" where
  "Number_isInteger (Finite r) = (of_int \<lfloor>r\<rfloor> = r)"
| "Number_isInteger n = False"

section \<open>Aggregates (inferSchema.js)\<close>

text \<open>
  A variant is \<open>{ kind, count }\<close> with one more field for three of the kinds:
  \<open>object\<close> (an object aggregate), \<open>array\<close> (an array aggregate) and \<open>number\<close>
  (\<open>{ integerOnly }\<close>). \<open>getOrCreateVariant\<close> is the only place that makes a variant and
  it attaches the field that belongs to the kind, so a variant is a tagged union: the
  kinds without a payload share the constructor \<open>Plain\<close>, and \<open>kind\<close> reads the tag
  back. A \<open>Map\<close> is the list of its entries in insertion order.
\<close>

datatype leaf = LNull | LBoolean | LString | LTimestamp | LGeopoint | LReference
  | LBytes | LUnknown

datatype fieldAgg = FieldAgg (presentCount: nat) (variants: "variant list")
and variant =
    Plain (tag: leaf) (count: nat)
  | NumberVariant (count: nat) (integerOnly: bool)
  | ObjectVariant (count: nat) (object: objectAgg)
  | ArrayVariant (count: nat) (array: arrayAgg)
and objectAgg = ObjectAgg (totalSeen: nat) (properties: "(string \<times> fieldAgg) list")
and arrayAgg = ArrayAgg (arrayTotalSeen: nat) (emptyCount: nat) (items: "fieldAgg option")

fun kind :: "variant \<Rightarrow> Kind" where
  "kind (Plain LNull c) = KNull"
| "kind (Plain LBoolean c) = KBoolean"
| "kind (Plain LString c) = KString"
| "kind (Plain LTimestamp c) = KTimestamp"
| "kind (Plain LGeopoint c) = KGeopoint"
| "kind (Plain LReference c) = KReference"
| "kind (Plain LBytes c) = KBytes"
| "kind (Plain LUnknown c) = KUnknown"
| "kind (NumberVariant c io) = KNumber"
| "kind (ObjectVariant c oa) = KObject"
| "kind (ArrayVariant c aa) = KArray"

definition makeFieldAgg :: fieldAgg where
  "makeFieldAgg = FieldAgg 0 []"

definition makeObjectAgg :: objectAgg where
  "makeObjectAgg = ObjectAgg 0 []"

definition makeArrayAgg :: arrayAgg where
  "makeArrayAgg = ArrayAgg 0 0 None"

text \<open>The variant \<open>getOrCreateVariant\<close> makes for a kind that has none yet.\<close>

fun newVariant :: "Kind \<Rightarrow> variant" where
  "newVariant KObject = ObjectVariant 0 makeObjectAgg"
| "newVariant KArray = ArrayVariant 0 makeArrayAgg"
| "newVariant KNumber = NumberVariant 0 True"
| "newVariant KNull = Plain LNull 0"
| "newVariant KBoolean = Plain LBoolean 0"
| "newVariant KString = Plain LString 0"
| "newVariant KTimestamp = Plain LTimestamp 0"
| "newVariant KGeopoint = Plain LGeopoint 0"
| "newVariant KReference = Plain LReference 0"
| "newVariant KBytes = Plain LBytes 0"
| "newVariant KUnknown = Plain LUnknown 0"

text \<open>
  \<open>getOrCreateVariant\<close> returns the first variant of the kind, after pushing a new one
  when there is none. The source returns a reference and the caller mutates the variant
  in place; the model returns the variant and \<open>store\<close> writes the mutated variant back
  to the place it was found at.
\<close>

definition getOrCreateVariant :: "fieldAgg \<Rightarrow> Kind \<Rightarrow> fieldAgg \<times> variant" where
  "getOrCreateVariant fieldAgg k =
    (case find (\<lambda>x. kind x = k) (variants fieldAgg) of
       Some v \<Rightarrow> (fieldAgg, v)
     | None \<Rightarrow>
         (let v = newVariant k
          in (FieldAgg (presentCount fieldAgg) (variants fieldAgg @ [v]), v)))"

fun store :: "variant \<Rightarrow> variant list \<Rightarrow> variant list" where
  "store v [] = []"
| "store v (x # xs) = (if kind x = kind v then v # xs else x # store v xs)"

fun inc_count :: "variant \<Rightarrow> variant" where
  "inc_count (Plain t c) = Plain t (c + 1)"
| "inc_count (NumberVariant c io) = NumberVariant (c + 1) io"
| "inc_count (ObjectVariant c oa) = ObjectVariant (c + 1) oa"
| "inc_count (ArrayVariant c aa) = ArrayVariant (c + 1) aa"

text \<open>
  \<open>Map.get\<close> and \<open>Map.set\<close>: a new key goes to the end, a known key keeps its place.
  The same two functions model reading and assigning a property of an object that the
  scripts fill key by key (\<open>fields[k]\<close>, \<open>out[path]\<close>, \<open>stat.kinds[kind]\<close>); such an object
  is listed in the order of the assignments (JavaScript would list keys that are array
  indices first).
\<close>

fun Map_get :: "(string \<times> 'v) list \<Rightarrow> string \<Rightarrow> 'v option" where
  "Map_get [] k = None"
| "Map_get ((k', v) # m) k = (if k' = k then Some v else Map_get m k)"

fun Map_set :: "(string \<times> 'v) list \<Rightarrow> string \<Rightarrow> 'v \<Rightarrow> (string \<times> 'v) list" where
  "Map_set [] k v = [(k, v)]"
| "Map_set ((k', v') # m) k v =
     (if k' = k then (k, v) # m else (k', v') # Map_set m k v)"

text \<open>
  \<open>addValueSample\<close>. The \<open>switch (kind)\<close> of the source reads \<open>variant.object\<close> for an
  object value, \<open>variant.array\<close> for an array and \<open>variant.number\<close> for a number; the
  variant found for the kind of the value has that payload, so the model matches on the
  pair of them. \<open>addProperties\<close> is the loop over \<open>Object.entries\<close> (the same loop is the
  body of \<open>addObjectSample\<close>), \<open>addItems\<close> the loop over the elements of an array.
\<close>

function addValueSample :: "fieldAgg \<Rightarrow> jsval \<Rightarrow> fieldAgg"
  and addProperties ::
    "(string \<times> fieldAgg) list \<Rightarrow> (string \<times> jsval) list \<Rightarrow> (string \<times> fieldAgg) list"
  and addItems :: "fieldAgg \<Rightarrow> jsval list \<Rightarrow> fieldAgg"
where
  "addValueSample fieldAgg value =
    (let (fa, variant) =
           getOrCreateVariant (FieldAgg (presentCount fieldAgg + 1) (variants fieldAgg))
             (detectKind value);
         variant = inc_count variant;
         variant =
           (case (variant, value) of
              (ObjectVariant c oa, VObject entries) \<Rightarrow>
                ObjectVariant c
                  (ObjectAgg (totalSeen oa + 1) (addProperties (properties oa) entries))
            | (ArrayVariant c aa, VArray els) \<Rightarrow>
                ArrayVariant c
                  (if length els = 0
                   then ArrayAgg (arrayTotalSeen aa + 1) (emptyCount aa + 1) (items aa)
                   else ArrayAgg (arrayTotalSeen aa + 1) (emptyCount aa)
                     (Some (addItems
                        (case items aa of None \<Rightarrow> makeFieldAgg | Some it \<Rightarrow> it) els)))
            | (NumberVariant c io, VNumber n) \<Rightarrow>
                NumberVariant c (if \<not> Number_isInteger n then False else io)
            | _ \<Rightarrow> variant)
     in FieldAgg (presentCount fa) (store variant (variants fa)))"
| "addProperties props [] = props"
| "addProperties props ((k, v) # rest) =
    (let child = (case Map_get props k of None \<Rightarrow> makeFieldAgg | Some c \<Rightarrow> c)
     in addProperties (Map_set props k (addValueSample child v)) rest)"
| "addItems fieldAgg [] = fieldAgg"
| "addItems fieldAgg (el # els) = addItems (addValueSample fieldAgg el) els"
  by pat_completeness auto
termination
  apply (relation "measure (\<lambda>x. case x of
      Inl (fa, v) \<Rightarrow> 2 * size v
    | Inr (Inl (props, es)) \<Rightarrow> 2 * size_list (size_prod (\<lambda>_. 0) size) es + 1
    | Inr (Inr (fa, els)) \<Rightarrow> 2 * size_list size els + 1)")
  apply auto
  done

definition addObjectSample :: "objectAgg \<Rightarrow> (string \<times> jsval) list \<Rightarrow> objectAgg" where
  "addObjectSample objAgg obj =
     ObjectAgg (totalSeen objAgg + 1) (addProperties (properties objAgg) obj)"

text \<open>
  The fold of \<open>buildProfile\<close>:
  \<open>const agg = makeObjectAgg(); docs.forEach(d => addObjectSample(agg, d.data()))\<close>.
\<close>

definition foldDocs :: "(string \<times> jsval) list list \<Rightarrow> objectAgg" where
  "foldDocs docs = fold (\<lambda>d agg. addObjectSample agg d) docs makeObjectAgg"

section \<open>The schema summarizer (inferSchema.js)\<close>

text \<open>
  \<open>maybeAsMap\<close>: the second loop of the source, which collects the kind of each property
  and gives up at the first property with several variants or a kind that is not scalar.
\<close>

fun kinds_of_props :: "(string \<times> fieldAgg) list \<Rightarrow> Kind list option" where
  "kinds_of_props [] = Some []"
| "kinds_of_props ((key, fa) # props) =
     (if length (variants fa) \<noteq> 1 then None
      else let k = kind (hd (variants fa)) in
        if k \<notin> set [KBoolean, KString, KNumber] then None
        else map_option (\<lambda>kinds. k # kinds) (kinds_of_props props))"

definition maybeAsMap :: "objectAgg \<Rightarrow> Kind option" where
  "maybeAsMap objAgg =
    (let props = properties objAgg in
     if length props = 0 then None
     else let tot = totalSeen objAgg in
       if list_ex (\<lambda>e. presentCount (snd e) = tot) props then None
       else (case kinds_of_props props of
               None \<Rightarrow> None
             | Some kinds \<Rightarrow>
                 (case kinds of
                    [] \<Rightarrow> None
                  | first # _ \<Rightarrow> if list_all (\<lambda>k. k = first) kinds then Some first else None)))"

fun friendlyTypeName :: "variant \<Rightarrow> string" where
  "friendlyTypeName (NumberVariant c io) = (if io then ''integer'' else ''number'')"
| "friendlyTypeName v =
     (case kind v of
        KTimestamp \<Rightarrow> ''timestamp''
      | KReference \<Rightarrow> ''documentReference''
      | KBytes \<Rightarrow> ''bytes(base64)''
      | KGeopoint \<Rightarrow> ''geopoint''
      | k \<Rightarrow> kind_name k)"

text \<open>
  A summary node is an object literal with \<open>type\<close>, \<open>required\<close> and \<open>nullable\<close> and,
  by type, \<open>format\<close>, \<open>union\<close>, \<open>items\<close>, \<open>requiredFields\<close> and \<open>fields\<close>; a key the
  literal does not have, or has as \<open>undefined\<close>, is \<open>None\<close>. The \<open>items\<close> of an array
  that never had an element is \<open>{ type: "any" }\<close>, with no other key.
\<close>

datatype summary = Summary
  (type: string)
  (format: "string option")
  (union: "string list option")
  (items_summary: "summary option")
  (required: "bool option")
  (nullable: "bool option")
  (requiredFields: "string list option")
  (fields: "(string \<times> summary) list option")

definition node :: "string \<Rightarrow> bool \<Rightarrow> bool \<Rightarrow> summary" where
  "node t req nul = Summary t None None None (Some req) (Some nul) None None"

text \<open>Sizes, for the termination of the summarizer.\<close>

lemma filter_head_mem: "v # rest = filter P xs \<Longrightarrow> v \<in> set xs"
  by (metis filter_is_subset list.set_intros(1) subsetD)

lemma size_variant_mem: "v \<in> set (variants fa) \<Longrightarrow> size v < size fa"
  by (cases fa) (simp add: less_Suc_eq_le size_list_estimation')

lemma size_object_properties:
  "ObjectVariant c oa \<in> set (variants fa) \<Longrightarrow>
   Suc (2 * size_list (size_prod (\<lambda>_. 0) size) (properties oa)) < 2 * size fa"
  using size_variant_mem [of "ObjectVariant c oa" fa] by (cases oa) simp

lemma size_array_items:
  "ArrayVariant c aa \<in> set (variants fa) \<Longrightarrow> items aa = Some it \<Longrightarrow> size it < size fa"
  using size_variant_mem [of "ArrayVariant c aa" fa] by (cases aa) simp

text \<open>
  \<open>summarizeField\<close>; \<open>summarizeProperties\<close> is its loop over the properties of an object
  aggregate, which assigns \<open>fields[k]\<close> key by key (the same loop is in
  \<open>profileFromAgg\<close>). The list has the keys in the order of their first assignment; the
  object \<open>fields\<close> of the source lists the keys that are array indices before the others,
  so the two orders are the same when no key is an array index. \<open>presentCount || 1\<close> is 1
  when the count is 0.
\<close>

function summarizeField :: "fieldAgg \<Rightarrow> nat \<Rightarrow> summary"
  and summarizeProperties ::
    "(string \<times> fieldAgg) list \<Rightarrow> nat \<Rightarrow> (string \<times> summary) list \<Rightarrow> (string \<times> summary) list"
where
  "summarizeField fa parentTotalSeen =
    (let isNullable = list_ex (\<lambda>v. kind v = KNull) (variants fa);
         required = (presentCount fa = parentTotalSeen);
         nonNull = filter (\<lambda>v. kind v \<noteq> KNull) (variants fa)
     in case nonNull of
          [] \<Rightarrow> node ''unknown'' required True
        | v # more \<Rightarrow>
            if length nonNull > 1
            then Summary ''union'' None (Some (sort (map friendlyTypeName nonNull))) None
                   (Some required) (Some isNullable) None None
            else (case v of
                NumberVariant c io \<Rightarrow>
                  node (if io then ''integer'' else ''number'') required isNullable
              | ArrayVariant c aa \<Rightarrow>
                  (let itemsSummary =
                     (case items aa of
                        Some it \<Rightarrow>
                          summarizeField it
                            (if presentCount it = 0 then 1 else presentCount it)
                      | None \<Rightarrow> Summary ''any'' None None None None None None None)
                   in Summary ''array'' None None (Some itemsSummary)
                        (Some required) (Some isNullable) None None)
              | ObjectVariant c oa \<Rightarrow>
                  (case maybeAsMap oa of
                     Some mapValueKind \<Rightarrow>
                       node (''map<string, '' @ kind_name mapValueKind @ ''>'') required isNullable
                   | None \<Rightarrow>
                       (let fields = summarizeProperties (properties oa) (totalSeen oa) [];
                            req = map fst (filter (\<lambda>e. presentCount (snd e) = totalSeen oa)
                                    (properties oa))
                        in Summary ''object'' None None None (Some required) (Some isNullable)
                             (if length req \<noteq> 0 then Some req else None) (Some fields)))
              | Plain t c \<Rightarrow>
                  (case t of
                     LString \<Rightarrow> node ''string'' required isNullable
                   | LBoolean \<Rightarrow> node ''boolean'' required isNullable
                   | LTimestamp \<Rightarrow>
                       Summary ''timestamp'' (Some ''RFC3339'') None None
                         (Some required) (Some isNullable) None None
                   | LReference \<Rightarrow> node ''documentReference'' required isNullable
                   | LBytes \<Rightarrow> node ''bytes(base64)'' required isNullable
                   | LGeopoint \<Rightarrow>
                       node ''geopoint{latitude:number, longitude:number}'' required isNullable
                   | _ \<Rightarrow> node ''unknown'' required isNullable)))"
| "summarizeProperties [] parentTotal out = out"
| "summarizeProperties ((k, childFA) # rest) parentTotal out =
     summarizeProperties rest parentTotal (Map_set out k (summarizeField childFA parentTotal))"
  by pat_completeness auto
termination
  apply (relation "measure (\<lambda>x. case x of
      Inl (fa, t) \<Rightarrow> 2 * size fa
    | Inr (props, t, out) \<Rightarrow> 2 * size_list (size_prod (\<lambda>_. 0) size) props + 1)")
  apply (auto dest!: filter_head_mem simp: size_object_properties size_array_items)
  done




text \<open>
  The two conditions of the dictionary heuristic as the specification words them:
  (a) no property is present in every instance, (b) every property has one observed
  kind, the same scalar kind \<open>K\<close> for all of them.
\<close>

definition dictionary_condition :: "objectAgg \<Rightarrow> Kind \<Rightarrow> bool" where
  "dictionary_condition oa K =
    (list_all (\<lambda>e. presentCount (snd e) \<noteq> totalSeen oa) (properties oa)
     \<and> list_all (\<lambda>e. map kind (variants (snd e)) = [K]) (properties oa)
     \<and> K \<in> set [KBoolean, KString, KNumber])"

text \<open>
  The name of a union member as the amended claim C8 words it, variant by variant:
  \<open>integer\<close> or \<open>number\<close> for a number variant by its \<open>integerOnly\<close> flag,
  \<open>documentReference\<close> for a reference, \<open>bytes(base64)\<close> for bytes, and for every
  other kind the name of the kind. This is the yardstick \<open>friendlyTypeName\<close> of the
  source is compared with.
\<close>

fun union_member_name :: "variant \<Rightarrow> string" where
  "union_member_name (NumberVariant c io) = (if io then ''integer'' else ''number'')"
| "union_member_name (ObjectVariant c oa) = ''object''"
| "union_member_name (ArrayVariant c aa) = ''array''"
| "union_member_name (Plain LReference c) = ''documentReference''"
| "union_member_name (Plain LBytes c) = ''bytes(base64)''"
| "union_member_name (Plain LTimestamp c) = ''timestamp''"
| "union_member_name (Plain LGeopoint c) = ''geopoint''"
| "union_member_name (Plain LString c) = ''string''"
| "union_member_name (Plain LBoolean c) = ''boolean''"
| "union_member_name (Plain LUnknown c) = ''unknown''"
| "union_member_name (Plain LNull c) = ''null''"

section \<open>The schema linter (lintCollectionSchema.js)\<close>

text \<open>
  A regex rule is an object \<open>{ regex, note }\<close>. \<open>regex\<close> is \<open>Some\<close> of the set of
  strings it accepts when it is a \<open>RegExp\<close> (without the flags \<open>g\<close> and \<open>y\<close>, so that
  \<open>test\<close> has no state), and \<open>None\<close> when it is a value that has no method \<open>test\<close>
  (\<open>undefined\<close>, a string). The two rules the script ships with are
  \<open>/^\d{4}-\d{2}-\d{2}$/\<close> for \<open>date\<close> and \<open>/^([01]\d|2[0-3]):[0-5]\d$/\<close> for
  \<open>time\<close>.
\<close>

datatype rule = Rule (regex: "(string \<Rightarrow> bool) option") (rule_note: "string option")

definition digit :: "char \<Rightarrow> bool" where
  "digit c = (CHR ''0'' \<le> c \<and> c \<le> CHR ''9'')"

definition regex_date :: "string \<Rightarrow> bool" where
  "regex_date str =
     (length str = 10
      \<and> list_all digit (take 4 str) \<and> str ! 4 = CHR ''-''
      \<and> list_all digit (take 2 (drop 5 str)) \<and> str ! 7 = CHR ''-''
      \<and> list_all digit (take 2 (drop 8 str)))"

definition regex_time :: "string \<Rightarrow> bool" where
  "regex_time str =
     (length str = 5
      \<and> ((str ! 0 \<in> set ''01'' \<and> digit (str ! 1))
           \<or> (str ! 0 = CHR ''2'' \<and> str ! 1 \<in> set ''0123''))
      \<and> str ! 2 = CHR '':''
      \<and> str ! 3 \<in> set ''012345'' \<and> digit (str ! 4))"

text \<open>
  The options of \<open>CONFIG\<close> that pass 1 and the missing-field check read, and \<open>CONFIG\<close>
  as the script ships. Fractions are rationals: the quotient of two document counts, and
  a decimal literal of the configuration, are the numbers they denote.
  \<open>STRING_REGEX_RULES\<close> is the list of the own entries of an object whose prototype is
  \<open>Object.prototype\<close>, as an object literal has it. The options that only
  \<open>scanCollectionDocs\<close> reads (\<open>COLLECTION_PATH\<close>, \<open>SAMPLE_LIMIT\<close>, \<open>BATCH_SIZE\<close>)
  decide which documents the scan delivers, in its exchange with the Firestore client;
  the model is given the documents delivered (none, when \<open>SAMPLE_LIMIT\<close> is 0 or
  negative).
\<close>

datatype config = Config
  (REQUIRED_THRESHOLD: rat)
  (RARE_FIELD_MAX_PCT: rat)
  (EXAMPLES_PER_ISSUE: nat)
  (STRING_REGEX_RULES: "(string \<times> rule) list")

definition CONFIG :: config where
  "CONFIG = Config (9 / 10) (5 / 100) 20
     [(''date'', Rule (Some regex_date) (Some ''YYYY-MM-DD'')),
      (''time'', Rule (Some regex_time) (Some ''HH:mm (24h)''))]"

text \<open>
  A document snapshot: its id and its payload \<open>doc.data() || {}\<close>, a plain object.
  \<open>scanCollectionDocs\<close> pages through the collection and calls \<open>onDoc\<close> on one
  snapshot after the other; the model is given that sequence, and the second pass scans
  the sequence the first pass did (the collection and the options that bound the scan are
  the same for both).
\<close>

datatype snapshot = Snapshot (doc_id: string) (doc_data: "(string \<times> jsval) list")

text \<open>
  \<open>flattenDoc\<close>, with \<open>flattenEntries\<close> for its loop over \<open>Object.entries(data)\<close>.
  \<open>assign\<close> is \<open>out[path] = v\<close> on the object \<open>out\<close>: the key \<open>__proto__\<close> is the
  accessor of \<open>Object.prototype\<close>, and an assignment to it adds no entry (Firestore
  reserves the field names of that form, so no document has it). The entries of an
  instance of a Firestore class are not modelled and never read: the payload of a
  document is a plain object and the recursive call is guarded by the three
  \<open>instanceof\<close> tests. \<open>Object.entries\<close> yields the keys of \<open>out\<close> that are array
  indices first; the order of the list is that of the source when no flattened path is
  an array index.
\<close>

definition assign :: "(string \<times> 'v) list \<Rightarrow> string \<Rightarrow> 'v \<Rightarrow> (string \<times> 'v) list" where
  "assign out path v = (if path = ''__proto__'' then out else Map_set out path v)"

function flattenDoc :: "jsval \<Rightarrow> string \<Rightarrow> (string \<times> jsval) list \<Rightarrow> (string \<times> jsval) list"
  and flattenEntries ::
    "(string \<times> jsval) list \<Rightarrow> string \<Rightarrow> (string \<times> jsval) list \<Rightarrow> (string \<times> jsval) list"
where
  "flattenDoc data base out =
     (if \<not> isPlainObject data then out
      else (case data of VObject entries \<Rightarrow> flattenEntries entries base out | _ \<Rightarrow> out))"
| "flattenEntries [] base out = out"
| "flattenEntries ((k, v) # rest) base out =
     (let path = (if base \<noteq> [] then base @ ''.'' @ k else k)
      in flattenEntries rest base
           (if isPlainObject v \<and> \<not> instanceof_Timestamp v \<and> \<not> instanceof_GeoPoint v
                 \<and> \<not> instanceof_DocumentReference v
            then flattenDoc v path out
            else assign out path v))"
  by pat_completeness auto
termination
  apply (relation "measure (\<lambda>x. case x of
      Inl (data, base, out) \<Rightarrow> 2 * size data
    | Inr (es, base, out) \<Rightarrow> 2 * size_list (size_prod (\<lambda>_. 0) size) es + 1)")
  apply auto
  done

text \<open>
  The property read \<open>CONFIG.STRING_REGEX_RULES[fieldPath]\<close>. The rules are an object
  literal, so a path that is no key of its own is looked up in \<open>Object.prototype\<close>, whose
  members (functions, and for \<open>__proto__\<close> the prototype itself) are truthy and have no
  property \<open>regex\<close>: the read yields such a member as it yields a rule without a regex.
  \<open>regex_test\<close> is \<open>rule.regex.test(value)\<close>, which raises a TypeError when
  \<open>rule.regex\<close> has no method \<open>test\<close>.
\<close>

definition Object_prototype :: "string list" where
  "Object_prototype =
     [''constructor'', ''__defineGetter__'', ''__defineSetter__'', ''hasOwnProperty'',
      ''__lookupGetter__'', ''__lookupSetter__'', ''isPrototypeOf'', ''propertyIsEnumerable'',
      ''toString'', ''valueOf'', ''__proto__'', ''toLocaleString'']"

definition lookup_rule :: "(string \<times> rule) list \<Rightarrow> string \<Rightarrow> rule option" where
  "lookup_rule rules fieldPath =
     (case Map_get rules fieldPath of
        Some rule \<Rightarrow> Some rule
      | None \<Rightarrow> if fieldPath \<in> set Object_prototype then Some (Rule None None) else None)"

definition regex_test :: "rule \<Rightarrow> string \<Rightarrow> failure + bool" where
  "regex_test rule str = (case regex rule of None \<Rightarrow> Inl TypeError | Some re \<Rightarrow> Inr (re str))"

fun the_string :: "jsval \<Rightarrow> string" where
  "the_string (VString str) = str"
| "the_string v = []"

text \<open>
  Pass 1. Of a field statistic the model keeps \<open>presentCount\<close>, \<open>kinds\<close> (an object
  keyed by the kind name) and \<open>regexViolations\<close> (a list of \<open>{ doc, value }\<close>); the
  other example lists (\<open>kindExamples\<close>, \<open>valueExamples\<close>) and the variant groups feed
  other sections of the report and are left out. \<open>countFields\<close> is the loop over
  \<open>Object.entries(flat)\<close> in the callback of \<open>pass1_buildStats\<close>, \<open>checkRule\<close> the
  regex test in its body, \<open>pass1_onDoc\<close> the callback, and \<open>scanDocs\<close> the loop of
  \<open>scanCollectionDocs\<close> that awaits the callback on each document delivered: an exception
  in the callback ends the scan and reaches the \<open>catch\<close> of the main function.
\<close>

datatype fieldStat = FieldStat
  (stat_presentCount: nat)
  (stat_kinds: "(string \<times> nat) list")
  (stat_regexViolations: "(string \<times> string) list")

definition makeFieldStat :: fieldStat where
  "makeFieldStat = FieldStat 0 [] []"

definition pushExample :: "'a list \<Rightarrow> 'a \<Rightarrow> nat \<Rightarrow> 'a list" where
  "pushExample arr v limit = (if length arr \<ge> limit then arr else arr @ [v])"

definition checkRule :: "config \<Rightarrow> string \<Rightarrow> string \<Rightarrow> jsval \<Rightarrow> fieldStat \<Rightarrow> failure + fieldStat" where
  "checkRule cfg docId fieldPath v stat =
     (case lookup_rule (STRING_REGEX_RULES cfg) fieldPath of
        None \<Rightarrow> Inr stat
      | Some rule \<Rightarrow>
          if detectKind v = KString
          then (case regex_test rule (the_string v) of
                  Inl err \<Rightarrow> Inl err
                | Inr matches \<Rightarrow>
                    if \<not> matches
                    then Inr (FieldStat (stat_presentCount stat) (stat_kinds stat)
                           (pushExample (stat_regexViolations stat) (docId, the_string v)
                              (EXAMPLES_PER_ISSUE cfg)))
                    else Inr stat)
          else Inr stat)"

fun countFields ::
  "config \<Rightarrow> string \<Rightarrow> (string \<times> jsval) list \<Rightarrow> (string \<times> fieldStat) list
    \<Rightarrow> failure + (string \<times> fieldStat) list"
where
  "countFields cfg docId [] fieldStats = Inr fieldStats"
| "countFields cfg docId ((fieldPath, v) # rest) fieldStats =
     (let stat = (case Map_get fieldStats fieldPath of None \<Rightarrow> makeFieldStat | Some s \<Rightarrow> s);
          kindName = kind_name (detectKind v);
          stat = FieldStat (stat_presentCount stat + 1)
                   (Map_set (stat_kinds stat) kindName
                      ((case Map_get (stat_kinds stat) kindName of None \<Rightarrow> 0 | Some n \<Rightarrow> n) + 1))
                   (stat_regexViolations stat)
      in case checkRule cfg docId fieldPath v stat of
           Inl err \<Rightarrow> Inl err
         | Inr stat \<Rightarrow> countFields cfg docId rest (Map_set fieldStats fieldPath stat))"

datatype pass1 = Pass1
  (fieldStats: "(string \<times> fieldStat) list")
  (totalDocs: nat)
  (docsScanned: nat)

definition pass1_onDoc ::
  "config \<Rightarrow> snapshot \<Rightarrow> (string \<times> fieldStat) list \<times> nat
    \<Rightarrow> failure + (string \<times> fieldStat) list \<times> nat" where
  "pass1_onDoc cfg doc st =
     (let flat = flattenDoc (VObject (doc_data doc)) [] []
      in case countFields cfg (doc_id doc) flat (fst st) of
           Inl err \<Rightarrow> Inl err
         | Inr stats \<Rightarrow> Inr (stats, snd st + 1))"

fun scanDocs :: "(snapshot \<Rightarrow> 's \<Rightarrow> failure + 's) \<Rightarrow> snapshot list \<Rightarrow> 's \<Rightarrow> failure + 's" where
  "scanDocs onDoc [] st = Inr st"
| "scanDocs onDoc (doc # docs) st =
     (case onDoc doc st of
        Inl err \<Rightarrow> Inl err
      | Inr st' \<Rightarrow> scanDocs onDoc docs st')"

definition pass1_buildStats :: "config \<Rightarrow> snapshot list \<Rightarrow> failure + pass1" where
  "pass1_buildStats cfg docs =
     (case scanDocs (pass1_onDoc cfg) docs ([], 0) of
        Inl err \<Rightarrow> Inl err
      | Inr st \<Rightarrow> Inr (Pass1 (fst st) (snd st) (length docs)))"

text \<open>
  Pass 2. \<open>noteMissing\<close> is the loop over \<open>expectedList\<close> in the callback of
  \<open>pass2_missingExamples\<close>; \<open>present\<close> is the list of the keys of the flattened document.
\<close>

fun noteMissing ::
  "string list \<Rightarrow> string list \<Rightarrow> string \<Rightarrow> nat \<Rightarrow> (string \<times> string list) list
    \<Rightarrow> (string \<times> string list) list"
where
  "noteMissing [] present docId limit missingExamples = missingExamples"
| "noteMissing (f # expectedList) present docId limit missingExamples =
     (if f \<in> set present then noteMissing expectedList present docId limit missingExamples
      else let arr = (case Map_get missingExamples f of None \<Rightarrow> [] | Some a \<Rightarrow> a)
           in noteMissing expectedList present docId limit
                (Map_set missingExamples f (pushExample arr docId limit)))"

definition pass2_missingExamples ::
  "config \<Rightarrow> snapshot list \<Rightarrow> string list \<Rightarrow> (string \<times> string list) list" where
  "pass2_missingExamples cfg docs expectedList =
     fold (\<lambda>doc missingExamples.
             noteMissing expectedList (map fst (flattenDoc (VObject (doc_data doc)) [] []))
               (doc_id doc) (EXAMPLES_PER_ISSUE cfg) missingExamples)
       docs []"

text \<open>
  \<open>Number(x.toFixed(4))\<close> for \<open>x \<ge> 0\<close>: the nearest multiple of 1/10000, the larger one
  at a tie. The model rounds the fraction itself and the source the double nearest to it.
  The two differ only for a fraction that is exactly halfway between two multiples of
  1/10000 and is no double, where the source rounds as the double lies: 3/160 = 0.01875
  is 0.0188 in the model and 0.0187 in the source, while 1/32 = 0.03125 is a double and
  is 0.0313 in both. \<open>pct\<close> is \<open>totalDocs ? presentCount / totalDocs : 0\<close>.
\<close>

definition toFixed4 :: "rat \<Rightarrow> rat" where
  "toFixed4 x = of_int \<lfloor>x * 10000 + 1 / 2\<rfloor> / 10000"

definition pct :: "nat \<Rightarrow> nat \<Rightarrow> rat" where
  "pct presentCnt tot = (if tot \<noteq> 0 then of_nat presentCnt / of_nat tot else 0)"

text \<open>
  \<open>buildReport\<close>, restricted to the rows of \<open>fields\<close>, the expected fields, the
  missing-field issues and the parts of \<open>meta\<close> and \<open>summary\<close> that come from them
  (\<open>row_kinds\<close> is the key \<open>kinds\<close> of a row, \<open>issue_field\<close> the key \<open>field\<close> of an issue,
  \<open>tot\<close> the argument \<open>totalDocs\<close>). The two
  sorts of the source are stable and descending, which is a stable sort on the negated
  key. \<open>missingIssueOf\<close> is the function mapped over the expected fields; the
  \<open>filter(Boolean)\<close> after it drops its nulls.
\<close>

datatype fieldRow = FieldRow
  (field: string)
  (present_count: nat)
  (present_pct: rat)
  (row_kinds: "(string \<times> nat) list")
  (type_mismatch: "bool option")

datatype missingIssue = MissingIssue
  (issue_field: string)
  (missing_count: int)
  (missing_pct: rat)
  (example_doc_ids: "string list option")

datatype report = Report
  (docs_scanned: nat)
  (docs_total_seen: nat)
  (required_threshold: rat)
  (rare_field_max_pct: rat)
  (examples_per_issue: nat)
  (fields_total: nat)
  (expected_fields_count: nat)
  (missing_fields_issues: nat)
  (missing_fields: "missingIssue list option")

definition fieldRows :: "nat \<Rightarrow> (string \<times> fieldStat) list \<Rightarrow> fieldRow list" where
  "fieldRows tot stats =
     map (\<lambda>e. let stat = snd e;
                 nonNullKinds = filter (\<lambda>k. k \<noteq> ''null'') (map fst (stat_kinds stat));
                 typeMismatch = (length nonNullKinds > 1)
             in FieldRow (fst e) (stat_presentCount stat)
                  (toFixed4 (pct (stat_presentCount stat) tot))
                  (stat_kinds stat) (if typeMismatch then Some True else None))
       stats"

definition missingIssueOf ::
  "nat \<Rightarrow> (string \<times> string list) list \<Rightarrow> fieldRow \<Rightarrow> missingIssue option" where
  "missingIssueOf tot missingExamples f =
     (let missingCount = int tot - int (present_count f) in
      if missingCount \<le> 0 then None
      else let examples = (case Map_get missingExamples (field f) of None \<Rightarrow> [] | Some a \<Rightarrow> a)
           in Some (MissingIssue (field f) missingCount
                     (toFixed4 (of_int missingCount / of_nat tot))
                     (if length examples \<noteq> 0 then Some examples else None)))"

definition buildReport ::
  "config \<Rightarrow> nat \<Rightarrow> nat \<Rightarrow> (string \<times> fieldStat) list \<Rightarrow> (string \<times> string list) list \<Rightarrow> report" where
  "buildReport cfg tot scanned stats missingExamples =
     (let flds = fieldRows tot stats;
          expectedFields =
            sort_key (\<lambda>f. - present_pct f)
              (filter (\<lambda>f. present_pct f \<ge> REQUIRED_THRESHOLD cfg) flds);
          missingIssues =
            sort_key (\<lambda>i. - missing_count i)
              (List.map_filter (missingIssueOf tot missingExamples) expectedFields)
      in Report scanned tot (REQUIRED_THRESHOLD cfg) (RARE_FIELD_MAX_PCT cfg)
           (EXAMPLES_PER_ISSUE cfg) (length flds) (length expectedFields)
           (length missingIssues)
           (if length missingIssues \<noteq> 0 then Some missingIssues else None))"

text \<open>
  The main function: pass 1, the expected fields of pass 1 (\<open>expectedFieldsOf\<close>, the loop
  that fills the set \<open>expectedFields\<close>), pass 2 when there is one, and the report. The
  body of the \<open>try\<close> has no test of \<open>CONFIG\<close> and no \<open>throw\<close> of its own; \<open>Inl\<close> is the
  \<open>catch\<close> branch, which prints the message of the exception and exits with status 1, and
  which an exception of pass 1 reaches.
\<close>

definition expectedFieldsOf :: "config \<Rightarrow> pass1 \<Rightarrow> string list" where
  "expectedFieldsOf cfg p1 =
     map fst (filter (\<lambda>e. pct (stat_presentCount (snd e)) (totalDocs p1) \<ge> REQUIRED_THRESHOLD cfg)
                (fieldStats p1))"

definition run :: "config \<Rightarrow> snapshot list \<Rightarrow> failure + report" where
  "run cfg docs =
     (case pass1_buildStats cfg docs of
        Inl err \<Rightarrow> Inl err
      | Inr p1 \<Rightarrow>
          (let expectedFields = expectedFieldsOf cfg p1;
               missingExamples =
                 (if length expectedFields > 0 then pass2_missingExamples cfg docs expectedFields
                  else [])
           in Inr (buildReport cfg (totalDocs p1) (docsScanned p1) (fieldStats p1)
                     missingExamples)))"

text \<open>
  The issues of a run, the example ids of an issue (\<open>[]\<close> when \<open>example_doc_ids\<close> is
  undefined), the expected fields the run computes after pass 1, and notions for the
  proofs: the keys of a flattened document, the count a field has after pass 1, example
  lists within the cap, a field with an example.
\<close>

definition examples_of :: "missingIssue \<Rightarrow> string list" where
  "examples_of i = (case example_doc_ids i of None \<Rightarrow> [] | Some ids \<Rightarrow> ids)"

definition missing_issues :: "failure + report \<Rightarrow> missingIssue list" where
  "missing_issues r =
     (case r of
        Inl err \<Rightarrow> []
      | Inr rep \<Rightarrow> (case missing_fields rep of None \<Rightarrow> [] | Some issues \<Rightarrow> issues))"

definition expected_fields :: "config \<Rightarrow> snapshot list \<Rightarrow> string list" where
  "expected_fields cfg docs =
     (case pass1_buildStats cfg docs of
        Inl err \<Rightarrow> []
      | Inr p1 \<Rightarrow> expectedFieldsOf cfg p1)"



definition flat_keys :: "snapshot \<Rightarrow> string list" where
  "flat_keys doc = map fst (flattenDoc (VObject (doc_data doc)) [] [])"

definition count_of :: "(string \<times> fieldStat) list \<Rightarrow> string \<Rightarrow> nat" where
  "count_of stats f = (case Map_get stats f of None \<Rightarrow> 0 | Some s \<Rightarrow> stat_presentCount s)"

definition capped :: "nat \<Rightarrow> (string \<times> string list) list \<Rightarrow> bool" where
  "capped limit m = (\<forall>f a. Map_get m f = Some a \<longrightarrow> length a \<le> limit)"

definition filled :: "string \<Rightarrow> (string \<times> string list) list \<Rightarrow> bool" where
  "filled f m = (\<exists>a. Map_get m f = Some a \<and> a \<noteq> [])"

text \<open>
  The ids of the documents that lack a field, in scan order, and the example list stored
  for a field (\<open>missingExamples.get(f) || []\<close>).
\<close>

definition lacking :: "string \<Rightarrow> snapshot list \<Rightarrow> string list" where
  "lacking f docs = map doc_id (filter (\<lambda>d. f \<notin> set (flat_keys d)) docs)"

definition examples_in :: "(string \<times> string list) list \<Rightarrow> string \<Rightarrow> string list" where
  "examples_in m f = (case Map_get m f of None \<Rightarrow> [] | Some a \<Rightarrow> a)"

section \<open>Properties of aggregates\<close>

text \<open>
  The two invariants of the data model, at every depth of an aggregate tree: a field
  aggregate's \<open>presentCount\<close> is the sum of the counts of its variants, and no property of
  an object aggregate is present more often than the object was seen.
\<close>

fun consistent_field :: "fieldAgg \<Rightarrow> bool"
  and consistent_variant :: "variant \<Rightarrow> bool"
  and consistent_object :: "objectAgg \<Rightarrow> bool"
  and consistent_array :: "arrayAgg \<Rightarrow> bool"
where
  "consistent_field (FieldAgg pc vs) =
     (pc = sum_list (map count vs) \<and> list_all consistent_variant vs)"
| "consistent_variant (Plain t c) = True"
| "consistent_variant (NumberVariant c io) = True"
| "consistent_variant (ObjectVariant c oa) = consistent_object oa"
| "consistent_variant (ArrayVariant c aa) = consistent_array aa"
| "consistent_object (ObjectAgg seen props) =
     list_all (\<lambda>e. presentCount (snd e) \<le> seen \<and> consistent_field (snd e)) props"
| "consistent_array (ArrayAgg seen ec it) =
     (case it of None \<Rightarrow> True | Some fa \<Rightarrow> consistent_field fa)"

text \<open>
  Every field aggregate stored in a \<open>properties\<close> map or as the \<open>items\<close> of an array
  aggregate has been sampled at least once: the source creates one only to sample it.
\<close>

fun populated_field :: "fieldAgg \<Rightarrow> bool"
  and populated_variant :: "variant \<Rightarrow> bool"
  and populated_object :: "objectAgg \<Rightarrow> bool"
  and populated_array :: "arrayAgg \<Rightarrow> bool"
where
  "populated_field (FieldAgg pc vs) = list_all populated_variant vs"
| "populated_variant (Plain t c) = True"
| "populated_variant (NumberVariant c io) = True"
| "populated_variant (ObjectVariant c oa) = populated_object oa"
| "populated_variant (ArrayVariant c aa) = populated_array aa"
| "populated_object (ObjectAgg seen props) =
     list_all (\<lambda>e. 0 < presentCount (snd e) \<and> populated_field (snd e)) props"
| "populated_array (ArrayAgg seen ec it) =
     (case it of None \<Rightarrow> True | Some fa \<Rightarrow> 0 < presentCount fa \<and> populated_field fa)"

text \<open>
  \<open>summarized agg fa T\<close>: in the course of \<open>profileFromAgg(_, agg)\<close> the summarizer is
  called as \<open>summarizeField(fa, T)\<close>. The first rule is the loop of \<open>profileFromAgg\<close>, the
  second the loop over the properties of a fixed-shape object, the third the call on the
  \<open>items\<close> of an array.
\<close>

inductive summarized :: "objectAgg \<Rightarrow> fieldAgg \<Rightarrow> nat \<Rightarrow> bool" for agg where
  top: "(k, fa) \<in> set (properties agg) \<Longrightarrow> summarized agg fa (totalSeen agg)"
| nested: "summarized agg fa T \<Longrightarrow>
     filter (\<lambda>v. kind v \<noteq> KNull) (variants fa) = [ObjectVariant c oa] \<Longrightarrow>
     maybeAsMap oa = None \<Longrightarrow> (k, child) \<in> set (properties oa) \<Longrightarrow>
     summarized agg child (totalSeen oa)"
| element: "summarized agg fa T \<Longrightarrow>
     filter (\<lambda>v. kind v \<noteq> KNull) (variants fa) = [ArrayVariant c aa] \<Longrightarrow>
     items aa = Some it \<Longrightarrow>
     summarized agg it (if presentCount it = 0 then 1 else presentCount it)"

text \<open>
  The effect of \<open>addValueSample\<close> on the variant of the value's kind: the increment of
  \<open>count\<close> and the \<open>switch\<close>.
\<close>

definition sample :: "jsval \<Rightarrow> variant \<Rightarrow> variant" where
  "sample value x =
     (case (inc_count x, value) of
        (ObjectVariant c oa, VObject entries) \<Rightarrow>
          ObjectVariant c (ObjectAgg (totalSeen oa + 1) (addProperties (properties oa) entries))
      | (ArrayVariant c aa, VArray els) \<Rightarrow>
          ArrayVariant c
            (if length els = 0
             then ArrayAgg (arrayTotalSeen aa + 1) (emptyCount aa + 1) (items aa)
             else ArrayAgg (arrayTotalSeen aa + 1) (emptyCount aa)
               (Some (addItems (case items aa of None \<Rightarrow> makeFieldAgg | Some it \<Rightarrow> it) els)))
      | (NumberVariant c io, VNumber n) \<Rightarrow>
          NumberVariant c (if \<not> Number_isInteger n then False else io)
      | _ \<Rightarrow> inc_count x)"

text \<open>
  Positions in an aggregate tree. A path from a field aggregate goes through the object
  variant into a property (\<open>Key k\<close>) or through the array variant into the shared
  \<open>items\<close> aggregate (\<open>Element\<close>); \<open>field_at agg k p\<close> starts at property \<open>k\<close> of a root
  object aggregate, and \<open>via\<close> goes on from a lookup that may have found nothing. The
  field path \<open>a.b\<close> is \<open>field_at agg ''a'' [Key ''b'']\<close>.
\<close>

datatype step = Key string | Element

definition object_of :: "fieldAgg \<Rightarrow> objectAgg option" where
  "object_of fa =
     (case find (\<lambda>x. kind x = KObject) (variants fa) of
        Some (ObjectVariant c oa) \<Rightarrow> Some oa
      | _ \<Rightarrow> None)"

definition array_of :: "fieldAgg \<Rightarrow> arrayAgg option" where
  "array_of fa =
     (case find (\<lambda>x. kind x = KArray) (variants fa) of
        Some (ArrayVariant c aa) \<Rightarrow> Some aa
      | _ \<Rightarrow> None)"

fun lookup_field :: "fieldAgg \<Rightarrow> step list \<Rightarrow> fieldAgg option" where
  "lookup_field fa [] = Some fa"
| "lookup_field fa (Key k # p) =
     (case object_of fa of
        Some oa \<Rightarrow>
          (case Map_get (properties oa) k of
             Some child \<Rightarrow> lookup_field child p
           | None \<Rightarrow> None)
      | None \<Rightarrow> None)"
| "lookup_field fa (Element # p) =
     (case array_of fa of
        Some aa \<Rightarrow>
          (case items aa of
             Some it \<Rightarrow> lookup_field it p
           | None \<Rightarrow> None)
      | None \<Rightarrow> None)"

definition via :: "fieldAgg option \<Rightarrow> step list \<Rightarrow> fieldAgg option" where
  "via f p = (case f of Some fa \<Rightarrow> lookup_field fa p | None \<Rightarrow> None)"

definition field_at :: "objectAgg \<Rightarrow> string \<Rightarrow> step list \<Rightarrow> fieldAgg option" where
  "field_at agg k p =
     (case Map_get (properties agg) k of
        Some fa \<Rightarrow> lookup_field fa p
      | None \<Rightarrow> None)"

text \<open>
  The statistics of a position: its \<open>presentCount\<close>, the count of its variant of a given
  kind and the \<open>integerOnly\<close> flag of its number variant. A position or variant that does
  not exist counts 0, and its flag is the initial \<open>true\<close>.
\<close>

definition presentCount_at :: "fieldAgg option \<Rightarrow> nat" where
  "presentCount_at f = (case f of Some fa \<Rightarrow> presentCount fa | None \<Rightarrow> 0)"

definition count_at :: "Kind \<Rightarrow> fieldAgg option \<Rightarrow> nat" where
  "count_at kd f =
     (case f of
        Some fa \<Rightarrow>
          (case find (\<lambda>x. kind x = kd) (variants fa) of Some x \<Rightarrow> count x | None \<Rightarrow> 0)
      | None \<Rightarrow> 0)"

definition integerOnly_at :: "fieldAgg option \<Rightarrow> bool" where
  "integerOnly_at f =
     (case f of
        Some fa \<Rightarrow>
          (case find (\<lambda>x. kind x = KNumber) (variants fa) of
             Some (NumberVariant c io) \<Rightarrow> io
           | _ \<Rightarrow> True)
      | None \<Rightarrow> True)"

definition stats_at :: "Kind \<Rightarrow> fieldAgg option \<Rightarrow> nat \<times> nat \<times> bool" where
  "stats_at kd f = (presentCount_at f, count_at kd f, integerOnly_at f)"

text \<open>
  Modelled from the spec: the merge operation on aggregates, which the source does not
  have. The specification gives it field by field: the \<open>presentCount\<close>s add, the counts of
  each kind add, and the \<open>integerOnly\<close> flags are and-ed.
\<close>

definition merge_stats :: "nat \<times> nat \<times> bool \<Rightarrow> nat \<times> nat \<times> bool \<Rightarrow> nat \<times> nat \<times> bool" where
  "merge_stats a b =
     (fst a + fst b, fst (snd a) + fst (snd b), snd (snd a) \<and> snd (snd b))"

text \<open>
  The values a document holds at a position (every element of every array on the way),
  and their statistics.
\<close>

fun values_at :: "step list \<Rightarrow> jsval \<Rightarrow> jsval list" where
  "values_at [] v = [v]"
| "values_at (Key k # p) (VObject entries) =
     concat (map (\<lambda>e. if fst e = k then values_at p (snd e) else []) entries)"
| "values_at (Element # p) (VArray els) = concat (map (values_at p) els)"
| "values_at (s # p) v = []"

definition integral :: "jsval \<Rightarrow> bool" where
  "integral v = (case v of VNumber n \<Rightarrow> Number_isInteger n | _ \<Rightarrow> True)"

definition stats_of_values :: "Kind \<Rightarrow> jsval list \<Rightarrow> nat \<times> nat \<times> bool" where
  "stats_of_values kd vs =
     (length vs, length (filter (\<lambda>v. detectKind v = kd) vs), list_all integral vs)"

section \<open>The classifier\<close>

lemma typeof_other [simp]:
  "typeof (VOther x) \<noteq> ''string''" "typeof (VOther x) \<noteq> ''boolean''"
  "typeof (VOther x) \<noteq> ''number''"
  by (cases x; simp)+

lemma detectKind_simps [simp]:
  "detectKind VNull = KNull"
  "detectKind (VTimestamp s n) = KTimestamp"
  "detectKind (VGeoPoint la lo) = KGeopoint"
  "detectKind (VReference p) = KReference"
  "detectKind (VBytes bs) = KBytes"
  "detectKind (VArray els) = KArray"
  "detectKind (VString str) = KString"
  "detectKind (VBoolean b) = KBoolean"
  "detectKind (VNumber x) = KNumber"
  "detectKind (VObject entries) = KObject"
  "detectKind (VOther y) = KUnknown"
  by (simp_all add: detectKind_def)

text \<open>
  In \<open>lintCollectionSchema.js\<close> the classifier returns a kind for every value, null first,
  then the Firestore classes and bytes, then arrays, then the three scalar types, then
  what has the tag of a plain object, and \<open>unknown\<close> for the rest. A timestamp, a
  geopoint and a document reference pass the plain-object test and are still not
  classified as objects, because their tests come first.
\<close>

lemma detectKind_lint_total: "\<exists>k. detectKind_in LintCollectionSchema v = Inr k"
  by (simp add: detectKind_in_def read_admin_def)

lemma detectKind_lint_ordered:
  "detectKind_in LintCollectionSchema v =
     Inr (case v of
            VNull \<Rightarrow> KNull
          | VTimestamp s n \<Rightarrow> KTimestamp
          | VGeoPoint la lo \<Rightarrow> KGeopoint
          | VReference p \<Rightarrow> KReference
          | VBytes bs \<Rightarrow> KBytes
          | VArray els \<Rightarrow> KArray
          | VString str \<Rightarrow> KString
          | VBoolean b \<Rightarrow> KBoolean
          | VNumber x \<Rightarrow> KNumber
          | VObject entries \<Rightarrow> KObject
          | VOther y \<Rightarrow> KUnknown)"
  by (cases v) (simp_all add: detectKind_in_def read_admin_def)

lemma detectKind_lint_never_object:
  "isPlainObject (VTimestamp s n)"
  "detectKind_in LintCollectionSchema (VTimestamp s n) = Inr KTimestamp"
  "isPlainObject (VGeoPoint la lo)"
  "detectKind_in LintCollectionSchema (VGeoPoint la lo) = Inr KGeopoint"
  by (simp_all add: detectKind_in_def read_admin_def)


section \<open>The summarizer: the dictionary heuristic and unions\<close>

declare summarizeField.simps [simp del]

lemma kinds_of_props_Some:
  "kinds_of_props props = Some kinds \<longleftrightarrow>
     (list_all (\<lambda>e. length (variants (snd e)) = 1
        \<and> kind (hd (variants (snd e))) \<in> set [KBoolean, KString, KNumber]) props
      \<and> kinds = map (\<lambda>e. kind (hd (variants (snd e)))) props)"
  by (induction props arbitrary: kinds) (auto simp: Let_def split: if_splits)

lemma single_kind_iff:
  "map kind vs = [K] \<longleftrightarrow> length vs = 1 \<and> kind (hd vs) = K"
  by (cases vs) auto

lemma maybeAsMap_Some:
  "maybeAsMap oa = Some K \<longleftrightarrow> properties oa \<noteq> [] \<and> dictionary_condition oa K"
proof (cases "properties oa")
  case Nil
  then show ?thesis by (simp add: maybeAsMap_def)
next
  case (Cons e rest)
  show ?thesis
  proof (cases "kinds_of_props (properties oa)")
    case None
    then have "\<not> list_all (\<lambda>e. length (variants (snd e)) = 1
        \<and> kind (hd (variants (snd e))) \<in> set [KBoolean, KString, KNumber]) (properties oa)"
      using kinds_of_props_Some [of "properties oa"] by auto
    then have "\<not> dictionary_condition oa K"
      by (auto simp: dictionary_condition_def list_all_iff single_kind_iff)
    with None Cons show ?thesis
      by (simp add: maybeAsMap_def Let_def)
  next
    case (Some kinds)
    then have ks: "list_all (\<lambda>e. length (variants (snd e)) = 1
        \<and> kind (hd (variants (snd e))) \<in> set [KBoolean, KString, KNumber]) (properties oa)"
      and kinds: "kinds = map (\<lambda>e. kind (hd (variants (snd e)))) (properties oa)"
      using kinds_of_props_Some [of "properties oa" kinds] by auto
    from kinds Cons obtain first more where fm: "kinds = first # more"
      and first: "first = kind (hd (variants (snd e)))"
      by auto
    have "(list_all (\<lambda>k. k = first) kinds \<and> first = K)
      \<longleftrightarrow> (list_all (\<lambda>e. map kind (variants (snd e)) = [K]) (properties oa)
           \<and> K \<in> set [KBoolean, KString, KNumber])"
      using ks kinds Cons first
      by (auto simp: list_all_iff single_kind_iff)
    then show ?thesis
      using Some Cons fm
      by (auto simp: maybeAsMap_def Let_def dictionary_condition_def list_ex_iff list_all_iff)
  qed
qed

lemma summarizeField_object:
  assumes "filter (\<lambda>v. kind v \<noteq> KNull) (variants fa) = [ObjectVariant c oa]"
  shows "summarizeField fa T =
    (case maybeAsMap oa of
       Some mapValueKind \<Rightarrow>
         node (''map<string, '' @ kind_name mapValueKind @ ''>'') (presentCount fa = T)
           (list_ex (\<lambda>v. kind v = KNull) (variants fa))
     | None \<Rightarrow>
         Summary ''object'' None None None (Some (presentCount fa = T))
           (Some (list_ex (\<lambda>v. kind v = KNull) (variants fa)))
           (if filter (\<lambda>e. presentCount (snd e) = totalSeen oa) (properties oa) \<noteq> []
            then Some (map fst (filter (\<lambda>e. presentCount (snd e) = totalSeen oa) (properties oa)))
            else None)
           (Some (summarizeProperties (properties oa) (totalSeen oa) [])))"
  using assms by (subst summarizeField.simps) (simp add: Let_def split: option.splits)

lemma summarizeField_union:
  assumes "length (filter (\<lambda>v. kind v \<noteq> KNull) (variants fa)) > 1"
  shows "summarizeField fa T =
    Summary ''union'' None
      (Some (sort (map friendlyTypeName (filter (\<lambda>v. kind v \<noteq> KNull) (variants fa)))))
      None (Some (presentCount fa = T)) (Some (list_ex (\<lambda>v. kind v = KNull) (variants fa)))
      None None"
proof -
  obtain v more where vm: "filter (\<lambda>v. kind v \<noteq> KNull) (variants fa) = v # more" "more \<noteq> []"
    using assms by (cases "filter (\<lambda>v. kind v \<noteq> KNull) (variants fa)") auto
  show ?thesis
    by (subst summarizeField.simps) (simp add: Let_def vm)
qed

lemma summarizeField_array:
  assumes "filter (\<lambda>v. kind v \<noteq> KNull) (variants fa) = [ArrayVariant c aa]"
  shows "summarizeField fa T =
    Summary ''array'' None None
      (Some (case items aa of
               Some it \<Rightarrow> summarizeField it (if presentCount it = 0 then 1 else presentCount it)
             | None \<Rightarrow> Summary ''any'' None None None None None None None))
      (Some (presentCount fa = T)) (Some (list_ex (\<lambda>v. kind v = KNull) (variants fa)))
      None None"
  using assms by (subst summarizeField.simps) (simp add: Let_def)

lemma summarizeField_empty:
  assumes "filter (\<lambda>v. kind v \<noteq> KNull) (variants fa) = []"
  shows "summarizeField fa T = node ''unknown'' (presentCount fa = T) True"
  using assms by (subst summarizeField.simps) (simp add: Let_def)

lemma summarizeField_number:
  assumes "filter (\<lambda>v. kind v \<noteq> KNull) (variants fa) = [NumberVariant c io]"
  shows "summarizeField fa T =
    node (if io then ''integer'' else ''number'') (presentCount fa = T)
      (list_ex (\<lambda>v. kind v = KNull) (variants fa))"
  using assms by (subst summarizeField.simps) (simp add: Let_def)

lemma summarizeField_plain_required:
  assumes "filter (\<lambda>v. kind v \<noteq> KNull) (variants fa) = [Plain t c]"
  shows "required (summarizeField fa T) = Some (presentCount fa = T)"
  using assms by (subst summarizeField.simps) (cases t; simp add: Let_def node_def)

lemma summarizeField_required:
  "required (summarizeField fa T) = Some (presentCount fa = T)"
proof (cases "filter (\<lambda>v. kind v \<noteq> KNull) (variants fa)")
  case Nil
  then show ?thesis by (simp add: summarizeField_empty node_def)
next
  case (Cons v more)
  show ?thesis
  proof (cases more)
    case Nil
    with Cons have one: "filter (\<lambda>v. kind v \<noteq> KNull) (variants fa) = [v]" by simp
    show ?thesis
    proof (cases v)
      case (Plain t c)
      with one show ?thesis by (simp add: summarizeField_plain_required)
    next
      case (NumberVariant c io)
      with one show ?thesis by (simp add: summarizeField_number node_def)
    next
      case (ObjectVariant c oa)
      with one show ?thesis
        by (simp add: summarizeField_object node_def split: option.splits)
    next
      case (ArrayVariant c aa)
      with one show ?thesis by (simp add: summarizeField_array)
    qed
  next
    case (Cons w rest)
    with \<open>filter (\<lambda>v. kind v \<noteq> KNull) (variants fa) = v # more\<close>
    have "length (filter (\<lambda>v. kind v \<noteq> KNull) (variants fa)) > 1" by simp
    then show ?thesis by (simp add: summarizeField_union)
  qed
qed

lemma map_fst_Map_set:
  "map fst (Map_set m k v) = (if k \<in> fst ` set m then map fst m else map fst m @ [k])"
  by (induction m) force+

lemma keys_Map_set: "set (map fst (Map_set m k v)) = insert k (set (map fst m))"
  by (auto simp: map_fst_Map_set)

lemma keys_summarizeProperties:
  "set (map fst (summarizeProperties props T out)) = set (map fst props) \<union> set (map fst out)"
proof (induction props arbitrary: out)
  case Nil
  then show ?case by simp
next
  case (Cons e props)
  obtain k fa where e: "e = (k, fa)" by (cases e)
  show ?case
    unfolding e by (simp add: Cons.IH keys_Map_set del: set_map)
qed

lemma kind_name_inj:
  "K' \<in> set [KBoolean, KString, KNumber] \<Longrightarrow> kind_name K = kind_name K' \<longleftrightarrow> K = K'"
  by (cases K) auto

text \<open>
  C3, as amended. When the only non-null variant of a field is an object, the summary has
  type \<open>map<string, K>\<close> exactly when the object aggregate has at least one property and
  the two conditions hold for \<open>K\<close>; when no kind qualifies the summary is a fixed-shape
  object whose \<open>fields\<close> has one sub-summary per key of the properties. The last two
  conjuncts are the example of the specification: two boolean properties seen 3 times
  each are a dictionary under 5 instances and a fixed shape with both keys required
  under 3.
\<close>

theorem map_heuristic:
  assumes "filter (\<lambda>v. kind v \<noteq> KNull) (variants fa) = [ObjectVariant c oa]"
  shows "(type (summarizeField fa T) = ''map<string, '' @ kind_name K @ ''>''
            \<longleftrightarrow> properties oa \<noteq> [] \<and> dictionary_condition oa K)
    \<and> ((\<nexists>K'. properties oa \<noteq> [] \<and> dictionary_condition oa K') \<longrightarrow>
          type (summarizeField fa T) = ''object''
          \<and> (\<exists>flds. fields (summarizeField fa T) = Some flds
                \<and> set (map fst flds) = set (map fst (properties oa))
                \<and> flds = summarizeProperties (properties oa) (totalSeen oa) []))
    \<and> type (summarizeField (FieldAgg 5 [ObjectVariant 5 (ObjectAgg 5
          [(''a'', FieldAgg 3 [Plain LBoolean 3]), (''b'', FieldAgg 3 [Plain LBoolean 3])])]) 5)
        = ''map<string, boolean>''
    \<and> summarizeField (FieldAgg 3 [ObjectVariant 3 (ObjectAgg 3
          [(''a'', FieldAgg 3 [Plain LBoolean 3]), (''b'', FieldAgg 3 [Plain LBoolean 3])])]) 3
        = Summary ''object'' None None None (Some True) (Some False) (Some [''a'', ''b''])
            (Some [(''a'', node ''boolean'' True False), (''b'', node ''boolean'' True False)])"
proof -
  have general: "(type (summarizeField fa T) = ''map<string, '' @ kind_name K @ ''>''
            \<longleftrightarrow> properties oa \<noteq> [] \<and> dictionary_condition oa K)
    \<and> ((\<nexists>K'. properties oa \<noteq> [] \<and> dictionary_condition oa K') \<longrightarrow>
          type (summarizeField fa T) = ''object''
          \<and> (\<exists>flds. fields (summarizeField fa T) = Some flds
                \<and> set (map fst flds) = set (map fst (properties oa))
                \<and> flds = summarizeProperties (properties oa) (totalSeen oa) []))"
  proof (cases "maybeAsMap oa")
    case None
    then have no: "\<And>K'. \<not> (properties oa \<noteq> [] \<and> dictionary_condition oa K')"
      using maybeAsMap_Some [of oa] by simp
    show ?thesis
      using None no
      by (simp add: summarizeField_object [OF assms] keys_summarizeProperties del: set_map)
  next
    case (Some K')
    then have yes: "properties oa \<noteq> [] \<and> dictionary_condition oa K'"
      using maybeAsMap_Some [of oa K'] by simp
    have "K = K' \<longleftrightarrow> properties oa \<noteq> [] \<and> dictionary_condition oa K"
      using Some maybeAsMap_Some [of oa K] by auto
    moreover have "K' \<in> set [KBoolean, KString, KNumber]"
      using yes by (simp add: dictionary_condition_def)
    then have "kind_name K = kind_name K' \<longleftrightarrow> K = K'"
      by (rule kind_name_inj)
    ultimately show ?thesis
      using Some yes
      by (auto simp: summarizeField_object [OF assms] node_def)
  qed
  have ex1: "type (summarizeField (FieldAgg 5 [ObjectVariant 5 (ObjectAgg 5
          [(''a'', FieldAgg 3 [Plain LBoolean 3]), (''b'', FieldAgg 3 [Plain LBoolean 3])])]) 5)
        = ''map<string, boolean>''"
    by code_simp
  have ex2: "summarizeField (FieldAgg 3 [ObjectVariant 3 (ObjectAgg 3
          [(''a'', FieldAgg 3 [Plain LBoolean 3]), (''b'', FieldAgg 3 [Plain LBoolean 3])])]) 3
        = Summary ''object'' None None None (Some True) (Some False) (Some [''a'', ''b''])
            (Some [(''a'', node ''boolean'' True False), (''b'', node ''boolean'' True False)])"
    by code_simp
  from general ex1 ex2 show ?thesis by blast
qed

theorem map_heuristic_witness:
  "filter (\<lambda>v. kind v \<noteq> KNull)
     (variants (FieldAgg 1 [ObjectVariant 1 (ObjectAgg 2 [(''k'', FieldAgg 1 [Plain LString 1])])]))
     = [ObjectVariant 1 (ObjectAgg 2 [(''k'', FieldAgg 1 [Plain LString 1])])]
   \<and> dictionary_condition (ObjectAgg 2 [(''k'', FieldAgg 1 [Plain LString 1])]) KString
   \<and> type (summarizeField
        (FieldAgg 1 [ObjectVariant 1 (ObjectAgg 2 [(''k'', FieldAgg 1 [Plain LString 1])])]) 1)
       = ''map<string, string>''"
proof -
  have h: "filter (\<lambda>v. kind v \<noteq> KNull)
     (variants (FieldAgg 1 [ObjectVariant 1 (ObjectAgg 2 [(''k'', FieldAgg 1 [Plain LString 1])])]))
     = [ObjectVariant 1 (ObjectAgg 2 [(''k'', FieldAgg 1 [Plain LString 1])])]"
    by simp
  have d: "dictionary_condition (ObjectAgg 2 [(''k'', FieldAgg 1 [Plain LString 1])]) KString"
    by (simp add: dictionary_condition_def)
  from map_heuristic [OF h, of 1 KString] d h show ?thesis by simp
qed

text \<open>
  C3 as stated fails on an object aggregate without properties, which is what a field
  that held \<open>{}\<close> has: both conditions hold of it for every scalar kind, and the summary
  is a fixed-shape object, because \<open>maybeAsMap\<close> returns null when there is no property.
\<close>

theorem map_heuristic_counterexample:
  "foldDocs [[(''a'', VObject [])]]
     = ObjectAgg 1 [(''a'', FieldAgg 1 [ObjectVariant 1 (ObjectAgg 1 [])])]
   \<and> dictionary_condition (ObjectAgg 1 []) KBoolean
   \<and> type (summarizeField (FieldAgg 1 [ObjectVariant 1 (ObjectAgg 1 [])]) 1) = ''object''
   \<and> type (summarizeField (FieldAgg 1 [ObjectVariant 1 (ObjectAgg 1 [])]) 1)
        \<noteq> ''map<string, '' @ kind_name KBoolean @ ''>''"
proof -
  have a: "foldDocs [[(''a'', VObject [])]]
     = ObjectAgg 1 [(''a'', FieldAgg 1 [ObjectVariant 1 (ObjectAgg 1 [])])]"
    by code_simp
  have b: "dictionary_condition (ObjectAgg 1 []) KBoolean"
    by (simp add: dictionary_condition_def)
  have c: "type (summarizeField (FieldAgg 1 [ObjectVariant 1 (ObjectAgg 1 [])]) 1) = ''object''"
    by code_simp
  from a b c show ?thesis by simp
qed

lemma friendlyTypeName_union_member_name: "friendlyTypeName v = union_member_name v"
  by (cases v rule: kind.cases) simp_all

lemma union_member_name_null: "union_member_name v = ''null'' \<longleftrightarrow> kind v = KNull"
  by (cases v rule: kind.cases) simp_all

lemma union_member_name_range:
  "kind v \<noteq> KNull \<Longrightarrow>
   union_member_name v \<in> set [''array'', ''boolean'', ''bytes(base64)'', ''documentReference'',
     ''geopoint'', ''integer'', ''number'', ''object'', ''string'', ''timestamp'', ''unknown'']"
  by (cases v rule: kind.cases) simp_all

text \<open>
  C8, as amended. A field with more than one non-null variant is summarized as a union
  whose member list is the list of the names of those variants, sorted: \<open>integer\<close> or
  \<open>number\<close> for a number variant by its flag, \<open>documentReference\<close> for a reference,
  \<open>bytes(base64)\<close> for bytes, and the kind name for the rest. The list is in ascending
  order, has one member for each non-null variant, never has \<open>null\<close>, and every member
  is one of eleven names.
\<close>

theorem union_members:
  assumes "length (filter (\<lambda>v. kind v \<noteq> KNull) (variants fa)) > 1"
  shows "type (summarizeField fa T) = ''union''
    \<and> union (summarizeField fa T)
        = Some (sort (map union_member_name (filter (\<lambda>v. kind v \<noteq> KNull) (variants fa))))
    \<and> (\<exists>us. union (summarizeField fa T) = Some us
          \<and> sorted us
          \<and> length us = length (filter (\<lambda>v. kind v \<noteq> KNull) (variants fa))
          \<and> ''null'' \<notin> set us
          \<and> set us \<subseteq> set [''array'', ''boolean'', ''bytes(base64)'', ''documentReference'',
                ''geopoint'', ''integer'', ''number'', ''object'', ''string'', ''timestamp'',
                ''unknown''])"
proof -
  let ?nonNull = "filter (\<lambda>v. kind v \<noteq> KNull) (variants fa)"
  let ?us = "sort (map union_member_name ?nonNull)"
  have names: "map friendlyTypeName ?nonNull = map union_member_name ?nonNull"
    by (simp add: friendlyTypeName_union_member_name)
  have u: "union (summarizeField fa T) = Some ?us"
    by (simp add: summarizeField_union [OF assms] names)
  have t: "type (summarizeField fa T) = ''union''"
    by (simp add: summarizeField_union [OF assms])
  have members: "set ?us = union_member_name ` set ?nonNull"
    by simp
  have no_null: "''null'' \<notin> set ?us"
  proof
    assume "''null'' \<in> set ?us"
    then obtain v where "v \<in> set ?nonNull" "union_member_name v = ''null''"
      unfolding members by auto
    then show False
      by (simp add: union_member_name_null)
  qed
  have range: "set ?us \<subseteq> set [''array'', ''boolean'', ''bytes(base64)'', ''documentReference'',
      ''geopoint'', ''integer'', ''number'', ''object'', ''string'', ''timestamp'', ''unknown'']"
    unfolding members using union_member_name_range by auto
  have "sorted ?us" "length ?us = length ?nonNull"
    by simp_all
  with t u no_null range show ?thesis
    by blast
qed

theorem union_members_witness:
  "length (filter (\<lambda>v. kind v \<noteq> KNull)
     (variants (FieldAgg 3 [Plain LString 1, Plain LNull 1, Plain LReference 1]))) > 1
   \<and> type (summarizeField (FieldAgg 3 [Plain LString 1, Plain LNull 1, Plain LReference 1]) 3)
       = ''union''
   \<and> union (summarizeField (FieldAgg 3 [Plain LString 1, Plain LNull 1, Plain LReference 1]) 3)
       = Some [''documentReference'', ''string'']"
proof -
  have h: "length (filter (\<lambda>v. kind v \<noteq> KNull)
     (variants (FieldAgg 3 [Plain LString 1, Plain LNull 1, Plain LReference 1]))) > 1"
    by simp
  have s: "sort [''string'', ''documentReference''] = [''documentReference'', ''string'']"
    by code_simp
  from union_members [OF h, of 3] h s show ?thesis by simp
qed

text \<open>
  C8 as stated fails where a friendly type name is not the kind name: a field that held
  the integer 1 and the string \<open>x\<close> has the kinds \<open>number\<close> and \<open>string\<close>, and its union
  lists \<open>integer\<close> and \<open>string\<close>.
\<close>

theorem union_members_counterexample:
  "addValueSample (addValueSample makeFieldAgg (VNumber (Finite 1))) (VString ''x'')
     = FieldAgg 2 [NumberVariant 1 True, Plain LString 1]
   \<and> union (summarizeField (FieldAgg 2 [NumberVariant 1 True, Plain LString 1]) 2)
       = Some [''integer'', ''string'']
   \<and> sort (map (\<lambda>v. kind_name (kind v))
        (filter (\<lambda>v. kind v \<noteq> KNull) (variants (FieldAgg 2 [NumberVariant 1 True, Plain LString 1]))))
       = [''number'', ''string'']
   \<and> union (summarizeField (FieldAgg 2 [NumberVariant 1 True, Plain LString 1]) 2)
       \<noteq> Some (sort (map (\<lambda>v. kind_name (kind v))
            (filter (\<lambda>v. kind v \<noteq> KNull)
               (variants (FieldAgg 2 [NumberVariant 1 True, Plain LString 1])))))"
proof -
  have a: "addValueSample (addValueSample makeFieldAgg (VNumber (Finite 1))) (VString ''x'')
     = FieldAgg 2 [NumberVariant 1 True, Plain LString 1]"
    by code_simp
  have b: "union (summarizeField (FieldAgg 2 [NumberVariant 1 True, Plain LString 1]) 2)
       = Some [''integer'', ''string'']"
    by code_simp
  have c: "sort (map (\<lambda>v. kind_name (kind v))
        (filter (\<lambda>v. kind v \<noteq> KNull) (variants (FieldAgg 2 [NumberVariant 1 True, Plain LString 1]))))
       = [''number'', ''string'']"
    by code_simp
  from a b c show ?thesis by simp
qed

section \<open>The effect of one sample\<close>

declare addValueSample.simps [simp del]

lemma kind_inc_count [simp]: "kind (inc_count x) = kind x"
  by (cases x rule: kind.cases) simp_all

lemma count_inc_count [simp]: "count (inc_count x) = count x + 1"
  by (cases x) simp_all

lemma kind_newVariant [simp]: "kind (newVariant k) = k"
  by (cases k) simp_all

lemma count_newVariant [simp]: "count (newVariant k) = 0"
  by (cases k) simp_all

lemma kind_object_iff: "kind x = KObject \<longleftrightarrow> (\<exists>c oa. x = ObjectVariant c oa)"
  by (cases x rule: kind.cases) simp_all

lemma kind_array_iff: "kind x = KArray \<longleftrightarrow> (\<exists>c aa. x = ArrayVariant c aa)"
  by (cases x rule: kind.cases) simp_all

lemma kind_number_iff: "kind x = KNumber \<longleftrightarrow> (\<exists>c io. x = NumberVariant c io)"
  by (cases x rule: kind.cases) simp_all

lemma detectKind_object_iff: "detectKind v = KObject \<longleftrightarrow> (\<exists>es. v = VObject es)"
  by (cases v) simp_all

lemma detectKind_array_iff: "detectKind v = KArray \<longleftrightarrow> (\<exists>els. v = VArray els)"
  by (cases v) simp_all

lemma detectKind_number_iff: "detectKind v = KNumber \<longleftrightarrow> (\<exists>n. v = VNumber n)"
  by (cases v) simp_all

lemma sample_object [simp]:
  "sample (VObject es) (ObjectVariant c oa) =
     ObjectVariant (c + 1) (ObjectAgg (totalSeen oa + 1) (addProperties (properties oa) es))"
  by (simp add: sample_def)

lemma sample_array [simp]:
  "sample (VArray els) (ArrayVariant c aa) =
     ArrayVariant (c + 1)
       (if els = [] then ArrayAgg (arrayTotalSeen aa + 1) (emptyCount aa + 1) (items aa)
        else ArrayAgg (arrayTotalSeen aa + 1) (emptyCount aa)
          (Some (addItems (case items aa of None \<Rightarrow> makeFieldAgg | Some it \<Rightarrow> it) els)))"
  by (simp add: sample_def)

lemma sample_number [simp]:
  "sample (VNumber n) (NumberVariant c io) = NumberVariant (c + 1) (io \<and> Number_isInteger n)"
  by (simp add: sample_def)

lemma sample_other:
  "kind x = detectKind v \<Longrightarrow> detectKind v \<notin> {KObject, KArray, KNumber} \<Longrightarrow>
   sample v x = inc_count x"
  by (cases x rule: kind.cases; cases v) (simp_all add: sample_def)

lemma kind_sample [simp]: "kind (sample v x) = kind x"
  by (cases x rule: kind.cases; cases v)
     (simp_all add: sample_def)

lemma count_sample [simp]: "count (sample v x) = count x + 1"
  by (cases x; cases v) (simp_all add: sample_def)

lemma presentCount_addValueSample [simp]:
  "presentCount (addValueSample fa v) = presentCount fa + 1"
  by (subst addValueSample.simps)
     (simp add: getOrCreateVariant_def Let_def split: option.splits prod.splits)

lemma store_unfound:
  "find (\<lambda>x. kind x = kind y) vs = None \<Longrightarrow> store y (vs @ [z]) = vs @ (if kind z = kind y then [y] else [z])"
  by (induction vs) (auto split: if_splits)

lemma variants_addValueSample:
  "variants (addValueSample fa v) =
     (case find (\<lambda>x. kind x = detectKind v) (variants fa) of
        Some x \<Rightarrow> store (sample v x) (variants fa)
      | None \<Rightarrow> variants fa @ [sample v (newVariant (detectKind v))])"
proof (cases "find (\<lambda>x. kind x = detectKind v) (variants fa)")
  case None
  then have "store (sample v (newVariant (detectKind v))) (variants fa @ [newVariant (detectKind v)])
    = variants fa @ [sample v (newVariant (detectKind v))]"
    by (simp add: store_unfound)
  with None show ?thesis
    by (subst addValueSample.simps)
       (simp add: getOrCreateVariant_def Let_def sample_def)
next
  case (Some x)
  then show ?thesis
    by (subst addValueSample.simps)
       (simp add: getOrCreateVariant_def Let_def sample_def)
qed

lemma find_store_same:
  "find (\<lambda>x. kind x = kind y) vs = Some x \<Longrightarrow> find (\<lambda>x. kind x = kind y) (store y vs) = Some y"
  by (induction vs) (auto split: if_splits)

lemma find_store_other:
  "kind y \<noteq> k \<Longrightarrow> find (\<lambda>x. kind x = k) (store y vs) = find (\<lambda>x. kind x = k) vs"
  by (induction vs) auto

lemma find_append_unfound:
  "find P (vs @ [z]) = (case find P vs of Some x \<Rightarrow> Some x | None \<Rightarrow> if P z then Some z else None)"
  by (induction vs) auto

lemma find_variants_addValueSample:
  "find (\<lambda>x. kind x = k) (variants (addValueSample fa v)) =
     (if k = detectKind v
      then Some (sample v (case find (\<lambda>x. kind x = k) (variants fa) of
                             Some x \<Rightarrow> x | None \<Rightarrow> newVariant k))
      else find (\<lambda>x. kind x = k) (variants fa))"
proof (cases "find (\<lambda>x. kind x = detectKind v) (variants fa)")
  case None
  then show ?thesis
    by (auto simp: variants_addValueSample find_append_unfound split: option.splits)
next
  case (Some x)
  then have kx: "kind x = detectKind v"
    by (auto dest: find_Some_iff [THEN iffD1])
  have "find (\<lambda>z. kind z = kind (sample v x)) (variants fa) = Some x"
    using Some kx by simp
  from find_store_same [OF this] have same:
    "find (\<lambda>z. kind z = detectKind v) (store (sample v x) (variants fa)) = Some (sample v x)"
    using kx by simp
  show ?thesis
    using Some kx same
    by (auto simp: variants_addValueSample find_store_other)
qed

lemma set_store: "set (store y vs) \<subseteq> insert y (set vs)"
  by (induction vs) auto

lemma find_mem: "find P xs = Some x \<Longrightarrow> x \<in> set xs \<and> P x"
  by (induction xs) (auto split: if_splits)

lemma sum_count_store:
  "find (\<lambda>x. kind x = kind y) vs = Some x \<Longrightarrow>
   sum_list (map count (store y vs)) + count x = sum_list (map count vs) + count y"
  by (induction vs) (auto split: if_splits)

lemma sum_count_addValueSample:
  "sum_list (map count (variants (addValueSample fa v))) = sum_list (map count (variants fa)) + 1"
proof (cases "find (\<lambda>x. kind x = detectKind v) (variants fa)")
  case None
  then show ?thesis by (simp add: variants_addValueSample)
next
  case (Some x)
  then have kx: "kind x = detectKind v" by (auto dest: find_mem)
  then have "find (\<lambda>z. kind z = kind (sample v x)) (variants fa) = Some x"
    using Some by simp
  from sum_count_store [OF this] Some show ?thesis
    by (simp add: variants_addValueSample)
qed

lemma variants_addValueSample_cases:
  assumes "y \<in> set (variants (addValueSample fa v))"
  shows "y \<in> set (variants fa)
    \<or> (\<exists>x. (x \<in> set (variants fa) \<or> x = newVariant (detectKind v))
          \<and> kind x = detectKind v \<and> y = sample v x)"
proof (cases "find (\<lambda>x. kind x = detectKind v) (variants fa)")
  case None
  with assms show ?thesis by (auto simp: variants_addValueSample)
next
  case (Some x)
  then have "x \<in> set (variants fa)" "kind x = detectKind v" by (auto dest: find_mem)
  moreover have "y \<in> insert (sample v x) (set (variants fa))"
    using assms Some set_store [of "sample v x" "variants fa"]
    by (auto simp: variants_addValueSample)
  ultimately show ?thesis by auto
qed

lemma Map_get_Map_set: "Map_get (Map_set m k x) k' = (if k' = k then Some x else Map_get m k')"
  by (induction m) auto

lemma set_Map_set: "set (Map_set m k x) \<subseteq> insert (k, x) (set m)"
  by (induction m) (auto split: if_splits)

lemma Map_get_mem: "Map_get m k = Some x \<Longrightarrow> (k, x) \<in> set m"
  by (induction m) (auto split: if_splits)

section \<open>Stored aggregates have been sampled\<close>

lemma populated_field_variants: "populated_field fa = list_all populated_variant (variants fa)"
  by (cases fa) simp

lemma populated_object_properties:
  "populated_object oa =
     list_all (\<lambda>e. 0 < presentCount (snd e) \<and> populated_field (snd e)) (properties oa)"
  by (cases oa) simp

lemma populated_variant_scalar:
  "kind x \<noteq> KObject \<Longrightarrow> kind x \<noteq> KArray \<Longrightarrow> populated_variant x"
  by (cases x) simp_all

lemma populated_makeFieldAgg [simp]: "populated_field makeFieldAgg"
  by (simp add: makeFieldAgg_def)

lemma populated_newVariant [simp]: "populated_variant (newVariant k)"
  by (cases k) (simp_all add: makeObjectAgg_def makeArrayAgg_def)

lemma presentCount_addItems [simp]:
  "presentCount (addItems fa els) = presentCount fa + length els"
  by (induction els arbitrary: fa) simp_all

lemma populated_addItems:
  assumes "\<And>el fa. el \<in> set els \<Longrightarrow> populated_field fa \<Longrightarrow>
             populated_field (addValueSample fa el)"
    and "populated_field fa"
  shows "populated_field (addItems fa els)"
  using assms by (induction els arbitrary: fa) simp_all

lemma populated_addProperties:
  assumes "\<And>e fa. e \<in> set es \<Longrightarrow> populated_field fa \<Longrightarrow>
             populated_field (addValueSample fa (snd e))"
    and "list_all (\<lambda>e. 0 < presentCount (snd e) \<and> populated_field (snd e)) props"
  shows "list_all (\<lambda>e. 0 < presentCount (snd e) \<and> populated_field (snd e))
           (addProperties props es)"
  using assms
proof (induction es arbitrary: props)
  case Nil
  then show ?case by simp
next
  case (Cons e es)
  obtain k v where e: "e = (k, v)" by (cases e)
  define child where "child = (case Map_get props k of None \<Rightarrow> makeFieldAgg | Some c \<Rightarrow> c)"
  have "populated_field child"
    using Cons.prems(2)
    by (auto simp: child_def list_all_iff split: option.splits dest!: Map_get_mem)
  then have new: "populated_field (addValueSample child v)"
    using Cons.prems(1) [of e child] e by simp
  have "list_all (\<lambda>e. 0 < presentCount (snd e) \<and> populated_field (snd e))
          (Map_set props k (addValueSample child v))"
    using Cons.prems(2) new set_Map_set [of props k "addValueSample child v"]
    by (auto simp: list_all_iff)
  then have "list_all (\<lambda>e. 0 < presentCount (snd e) \<and> populated_field (snd e))
          (addProperties (Map_set props k (addValueSample child v)) es)"
    using Cons.IH Cons.prems(1) by simp
  then show ?case
    by (simp add: e child_def Let_def)
qed

lemma populated_sample:
  assumes obj: "\<And>es e fa. v = VObject es \<Longrightarrow> e \<in> set es \<Longrightarrow> populated_field fa \<Longrightarrow>
                  populated_field (addValueSample fa (snd e))"
    and arr: "\<And>els el fa. v = VArray els \<Longrightarrow> el \<in> set els \<Longrightarrow> populated_field fa \<Longrightarrow>
                  populated_field (addValueSample fa el)"
    and x: "populated_variant x" "kind x = detectKind v"
  shows "populated_variant (sample v x)"
proof (cases "detectKind v = KObject \<or> detectKind v = KArray")
  case False
  then have "kind (sample v x) \<noteq> KObject" "kind (sample v x) \<noteq> KArray"
    using x by simp_all
  then show ?thesis by (rule populated_variant_scalar)
next
  case True
  then show ?thesis
  proof
    assume "detectKind v = KObject"
    then obtain es c oa where v: "v = VObject es" and xo: "x = ObjectVariant c oa"
      using x(2) by (auto simp: detectKind_object_iff kind_object_iff)
    show ?thesis
      using x(1) obj [OF v]
      by (simp add: v xo populated_object_properties populated_addProperties)
  next
    assume "detectKind v = KArray"
    then obtain els c aa where v: "v = VArray els" and xa: "x = ArrayVariant c aa"
      using x(2) by (auto simp: detectKind_array_iff kind_array_iff)
    obtain seen ec it where aa: "aa = ArrayAgg seen ec it" by (cases aa)
    have start: "populated_field (case it of None \<Rightarrow> makeFieldAgg | Some f \<Rightarrow> f)"
      using x(1) by (simp add: xa aa split: option.splits)
    have "populated_field (addItems (case it of None \<Rightarrow> makeFieldAgg | Some f \<Rightarrow> f) els)"
      using arr [OF v] start by (rule populated_addItems)
    moreover have "els \<noteq> [] \<Longrightarrow> 0 < length els"
      by (cases els) simp_all
    ultimately show ?thesis
      using x(1) by (simp add: v xa aa)
  qed
qed

lemma populated_addValueSample_step:
  assumes obj: "\<And>es e fa. v = VObject es \<Longrightarrow> e \<in> set es \<Longrightarrow> populated_field fa \<Longrightarrow>
                  populated_field (addValueSample fa (snd e))"
    and arr: "\<And>els el fa. v = VArray els \<Longrightarrow> el \<in> set els \<Longrightarrow> populated_field fa \<Longrightarrow>
                  populated_field (addValueSample fa el)"
    and fa: "populated_field fa"
  shows "populated_field (addValueSample fa v)"
proof -
  have "populated_variant y" if y: "y \<in> set (variants (addValueSample fa v))" for y
  proof -
    from variants_addValueSample_cases [OF y]
    consider "y \<in> set (variants fa)"
      | x where "x \<in> set (variants fa) \<or> x = newVariant (detectKind v)"
          "kind x = detectKind v" "y = sample v x"
      by blast
    then show ?thesis
    proof cases
      case 1
      with fa show ?thesis by (simp add: populated_field_variants list_all_iff)
    next
      case 2
      have "populated_variant x"
        using 2(1) fa by (auto simp: populated_field_variants list_all_iff)
      from populated_sample [OF obj arr this 2(2)] 2(3) show ?thesis by simp
    qed
  qed
  then show ?thesis
    by (simp add: populated_field_variants [of "addValueSample fa v"] list_all_iff)
qed

lemma populated_addValueSample:
  "populated_field fa \<Longrightarrow> populated_field (addValueSample fa v)"
proof (induction v arbitrary: fa)
  case (VArray els)
  show ?case
    by (rule populated_addValueSample_step) (use VArray in auto)
next
  case (VObject es)
  show ?case
  proof (rule populated_addValueSample_step)
    fix es' e fa'
    assume "VObject es = VObject es'" "e \<in> set es'" "populated_field fa'"
    then show "populated_field (addValueSample fa' (snd e))"
      using VObject.IH [of e "snd e" fa'] by (cases e) auto
  qed (use VObject.prems in auto)
qed (rule populated_addValueSample_step; simp)+

lemma populated_addObjectSample:
  "populated_object agg \<Longrightarrow> populated_object (addObjectSample agg obj)"
  by (simp add: addObjectSample_def populated_object_properties
        populated_addProperties populated_addValueSample)

lemma populated_fold:
  "populated_object agg \<Longrightarrow> populated_object (fold (\<lambda>d a. addObjectSample a d) docs agg)"
  by (induction docs arbitrary: agg) (simp_all add: populated_addObjectSample)

lemma populated_foldDocs: "populated_object (foldDocs docs)"
  by (simp add: foldDocs_def populated_fold makeObjectAgg_def)

section \<open>The invariants of the aggregate model\<close>

lemma consistent_field_variants:
  "consistent_field fa =
     (presentCount fa = sum_list (map count (variants fa))
      \<and> list_all consistent_variant (variants fa))"
  by (cases fa) simp

lemma consistent_object_properties:
  "consistent_object oa =
     list_all (\<lambda>e. presentCount (snd e) \<le> totalSeen oa \<and> consistent_field (snd e))
       (properties oa)"
  by (cases oa) simp

lemma consistent_variant_scalar:
  "kind x \<noteq> KObject \<Longrightarrow> kind x \<noteq> KArray \<Longrightarrow> consistent_variant x"
  by (cases x) simp_all

lemma consistent_makeFieldAgg [simp]: "consistent_field makeFieldAgg"
  by (simp add: makeFieldAgg_def)

lemma consistent_newVariant [simp]: "consistent_variant (newVariant k)"
  by (cases k) (simp_all add: makeObjectAgg_def makeArrayAgg_def)

lemma consistent_addItems:
  assumes "\<And>el fa. el \<in> set els \<Longrightarrow> consistent_field fa \<Longrightarrow>
             consistent_field (addValueSample fa el)"
    and "consistent_field fa"
  shows "consistent_field (addItems fa els)"
  using assms by (induction els arbitrary: fa) simp_all

lemma consistent_addProperties:
  assumes "\<And>e fa. e \<in> set es \<Longrightarrow> consistent_field fa \<Longrightarrow>
             consistent_field (addValueSample fa (snd e))"
    and "distinct (map fst es)"
    and "\<And>e. e \<in> set props \<Longrightarrow> consistent_field (snd e)
            \<and> presentCount (snd e) \<le> (if fst e \<in> fst ` set es then n else n + 1)"
    and "e \<in> set (addProperties props es)"
  shows "consistent_field (snd e) \<and> presentCount (snd e) \<le> n + 1"
  using assms
proof (induction es arbitrary: props)
  case Nil
  from Nil.prems(3) [of e] Nil.prems(4) show ?case by simp
next
  case (Cons e1 es)
  obtain k v where e1: "e1 = (k, v)" by (cases e1)
  define child where "child = (case Map_get props k of None \<Rightarrow> makeFieldAgg | Some c \<Rightarrow> c)"
  have child: "consistent_field child \<and> presentCount child \<le> n"
  proof (cases "Map_get props k")
    case None
    then show ?thesis by (simp add: child_def makeFieldAgg_def)
  next
    case (Some c)
    then have "(k, c) \<in> set props" by (rule Map_get_mem)
    from Cons.prems(3) [OF this] Some show ?thesis
      by (simp add: child_def e1)
  qed
  then have new: "consistent_field (addValueSample child v)"
    using Cons.prems(1) [of e1 child] e1 by simp
  have knot: "k \<notin> fst ` set es"
    using Cons.prems(2) e1 by auto
  have step: "consistent_field (snd e') \<and>
      presentCount (snd e') \<le> (if fst e' \<in> fst ` set es then n else n + 1)"
    if "e' \<in> set (Map_set props k (addValueSample child v))" for e'
  proof -
    from that set_Map_set [of props k "addValueSample child v"]
    consider "e' = (k, addValueSample child v)" | "e' \<in> set props" by auto
    then show ?thesis
    proof cases
      case 1
      then show ?thesis using new child knot by simp
    next
      case 2
      from Cons.prems(3) [OF this] show ?thesis
        by (auto simp: e1 split: if_splits)
    qed
  qed
  have "e \<in> set (addProperties (Map_set props k (addValueSample child v)) es)"
    using Cons.prems(4) by (simp add: e1 child_def Let_def)
  with Cons.IH [of "Map_set props k (addValueSample child v)"] step Cons.prems(1,2)
  show ?case by simp
qed

lemma consistent_sample:
  assumes obj: "\<And>es e fa. v = VObject es \<Longrightarrow> e \<in> set es \<Longrightarrow> consistent_field fa \<Longrightarrow>
                  consistent_field (addValueSample fa (snd e))"
    and arr: "\<And>els el fa. v = VArray els \<Longrightarrow> el \<in> set els \<Longrightarrow> consistent_field fa \<Longrightarrow>
                  consistent_field (addValueSample fa el)"
    and wf: "wf_value v"
    and x: "consistent_variant x" "kind x = detectKind v"
  shows "consistent_variant (sample v x)"
proof (cases "detectKind v = KObject \<or> detectKind v = KArray")
  case False
  then have "kind (sample v x) \<noteq> KObject" "kind (sample v x) \<noteq> KArray"
    using x by simp_all
  then show ?thesis by (rule consistent_variant_scalar)
next
  case True
  then show ?thesis
  proof
    assume "detectKind v = KObject"
    then obtain es c oa where v: "v = VObject es" and xo: "x = ObjectVariant c oa"
      using x(2) by (auto simp: detectKind_object_iff kind_object_iff)
    have d: "distinct (map fst es)" using wf v by simp
    have props: "consistent_field (snd e)
        \<and> presentCount (snd e) \<le> (if fst e \<in> fst ` set es then totalSeen oa else totalSeen oa + 1)"
      if "e \<in> set (properties oa)" for e
      using x(1) that by (auto simp: xo consistent_object_properties list_all_iff)
    have "consistent_field (snd e) \<and> presentCount (snd e) \<le> totalSeen oa + 1"
      if "e \<in> set (addProperties (properties oa) es)" for e
      using consistent_addProperties [OF obj [OF v] d props that] by simp
    then show ?thesis
      by (simp add: v xo list_all_iff)
  next
    assume "detectKind v = KArray"
    then obtain els c aa where v: "v = VArray els" and xa: "x = ArrayVariant c aa"
      using x(2) by (auto simp: detectKind_array_iff kind_array_iff)
    obtain seen ec it where aa: "aa = ArrayAgg seen ec it" by (cases aa)
    have start: "consistent_field (case it of None \<Rightarrow> makeFieldAgg | Some f \<Rightarrow> f)"
      using x(1) by (simp add: xa aa split: option.splits)
    have "consistent_field (addItems (case it of None \<Rightarrow> makeFieldAgg | Some f \<Rightarrow> f) els)"
      using arr [OF v] start by (rule consistent_addItems)
    then show ?thesis
      using x(1) by (simp add: v xa aa)
  qed
qed

lemma consistent_addValueSample_step:
  assumes obj: "\<And>es e fa. v = VObject es \<Longrightarrow> e \<in> set es \<Longrightarrow> consistent_field fa \<Longrightarrow>
                  consistent_field (addValueSample fa (snd e))"
    and arr: "\<And>els el fa. v = VArray els \<Longrightarrow> el \<in> set els \<Longrightarrow> consistent_field fa \<Longrightarrow>
                  consistent_field (addValueSample fa el)"
    and wf: "wf_value v"
    and fa: "consistent_field fa"
  shows "consistent_field (addValueSample fa v)"
proof -
  have "consistent_variant y" if y: "y \<in> set (variants (addValueSample fa v))" for y
  proof -
    from variants_addValueSample_cases [OF y]
    consider "y \<in> set (variants fa)"
      | x where "x \<in> set (variants fa) \<or> x = newVariant (detectKind v)"
          "kind x = detectKind v" "y = sample v x"
      by blast
    then show ?thesis
    proof cases
      case 1
      with fa show ?thesis by (simp add: consistent_field_variants list_all_iff)
    next
      case 2
      have "consistent_variant x"
        using 2(1) fa by (auto simp: consistent_field_variants list_all_iff)
      from consistent_sample [OF obj arr wf this 2(2)] 2(3) show ?thesis by simp
    qed
  qed
  moreover have "presentCount (addValueSample fa v)
      = sum_list (map count (variants (addValueSample fa v)))"
    using fa by (simp add: sum_count_addValueSample consistent_field_variants [of fa])
  ultimately show ?thesis
    by (simp add: consistent_field_variants [of "addValueSample fa v"] list_all_iff)
qed

lemma consistent_addValueSample:
  "wf_value v \<Longrightarrow> consistent_field fa \<Longrightarrow> consistent_field (addValueSample fa v)"
proof (induction v arbitrary: fa)
  case (VArray els)
  show ?case
  proof (rule consistent_addValueSample_step)
    fix els' el fa'
    assume "VArray els = VArray els'" "el \<in> set els'" "consistent_field fa'"
    then show "consistent_field (addValueSample fa' el)"
      using VArray.IH [of el fa'] VArray.prems(1) by (auto simp: list_all_iff)
  qed (use VArray.prems in auto)
next
  case (VObject es)
  show ?case
  proof (rule consistent_addValueSample_step)
    fix es' e fa'
    assume "VObject es = VObject es'" "e \<in> set es'" "consistent_field fa'"
    then show "consistent_field (addValueSample fa' (snd e))"
      using VObject.IH [of e "snd e" fa'] VObject.prems(1)
      by (cases e) (auto simp: list_all_iff)
  qed (use VObject.prems in auto)
qed (rule consistent_addValueSample_step; simp)+

lemma consistent_addObjectSample:
  assumes "wf_doc obj" and "consistent_object agg"
  shows "consistent_object (addObjectSample agg obj)"
proof -
  have d: "distinct (map fst obj)" and wfs: "\<And>e. e \<in> set obj \<Longrightarrow> wf_value (snd e)"
    using assms(1) by (auto simp: wf_doc_def list_all_iff)
  have props: "consistent_field (snd e)
      \<and> presentCount (snd e) \<le> (if fst e \<in> fst ` set obj then totalSeen agg else totalSeen agg + 1)"
    if "e \<in> set (properties agg)" for e
    using assms(2) that by (auto simp: consistent_object_properties list_all_iff)
  have "consistent_field (snd e) \<and> presentCount (snd e) \<le> totalSeen agg + 1"
    if "e \<in> set (addProperties (properties agg) obj)" for e
    using consistent_addProperties [OF _ d props that] wfs consistent_addValueSample by simp
  then show ?thesis
    by (simp add: addObjectSample_def list_all_iff)
qed

lemma consistent_fold_objects:
  "list_all wf_doc docs \<Longrightarrow> consistent_object agg \<Longrightarrow>
   consistent_object (fold (\<lambda>d a. addObjectSample a d) docs agg)"
  by (induction docs arbitrary: agg) (simp_all add: consistent_addObjectSample)

lemma consistent_fold_values:
  "list_all wf_value vals \<Longrightarrow> consistent_field fa \<Longrightarrow>
   consistent_field (fold (\<lambda>v a. addValueSample a v) vals fa)"
  by (induction vals arbitrary: fa) (simp_all add: consistent_addValueSample)

text \<open>
  C4. Starting from fresh aggregates, after any sequence of \<open>addObjectSample\<close> calls on an
  object aggregate and any sequence of \<open>addValueSample\<close> calls on a field aggregate (the
  documents and values being JavaScript values: no object has a key twice), every field
  aggregate of the tree has \<open>presentCount\<close> equal to the sum of its variants' counts and
  every property of every object aggregate has \<open>presentCount \<le> totalSeen\<close>.
\<close>

theorem aggregate_invariants:
  assumes "list_all wf_doc docs" and "list_all wf_value vals"
  shows "consistent_object (foldDocs docs)
    \<and> consistent_field (fold (\<lambda>v a. addValueSample a v) vals makeFieldAgg)"
  using assms
  by (simp add: foldDocs_def consistent_fold_objects consistent_fold_values makeObjectAgg_def)

theorem aggregate_invariants_witness:
  "list_all wf_doc
     [[(''a'', VNumber (Finite 1)), (''b'', VObject [(''c'', VArray [VNull, VString ''x''])])],
      [(''a'', VNumber (Finite (1 / 2)))]]
   \<and> list_all wf_value [VNull, VArray [VBoolean True], VNull]
   \<and> consistent_object (foldDocs
        [[(''a'', VNumber (Finite 1)), (''b'', VObject [(''c'', VArray [VNull, VString ''x''])])],
         [(''a'', VNumber (Finite (1 / 2)))]])
   \<and> consistent_field (fold (\<lambda>v a. addValueSample a v)
        [VNull, VArray [VBoolean True], VNull] makeFieldAgg)
   \<and> foldDocs
        [[(''a'', VNumber (Finite 1)), (''b'', VObject [(''c'', VArray [VNull, VString ''x''])])],
         [(''a'', VNumber (Finite (1 / 2)))]]
       = ObjectAgg 2
          [(''a'', FieldAgg 2 [NumberVariant 2 False]),
           (''b'', FieldAgg 1 [ObjectVariant 1 (ObjectAgg 1
              [(''c'', FieldAgg 1 [ArrayVariant 1 (ArrayAgg 1 0
                  (Some (FieldAgg 2 [Plain LNull 1, Plain LString 1])))])])])]"
proof -
  have d: "list_all wf_doc
     [[(''a'', VNumber (Finite 1)), (''b'', VObject [(''c'', VArray [VNull, VString ''x''])])],
      [(''a'', VNumber (Finite (1 / 2)))]]"
    by (simp add: wf_doc_def)
  have v: "list_all wf_value [VNull, VArray [VBoolean True], VNull]"
    by simp
  have e: "foldDocs
        [[(''a'', VNumber (Finite 1)), (''b'', VObject [(''c'', VArray [VNull, VString ''x''])])],
         [(''a'', VNumber (Finite (1 / 2)))]]
       = ObjectAgg 2
          [(''a'', FieldAgg 2 [NumberVariant 2 False]),
           (''b'', FieldAgg 1 [ObjectVariant 1 (ObjectAgg 1
              [(''c'', FieldAgg 1 [ArrayVariant 1 (ArrayAgg 1 0
                  (Some (FieldAgg 2 [Plain LNull 1, Plain LString 1])))])])])]"
    by code_simp
  from aggregate_invariants [OF d v] d v e show ?thesis
    by simp
qed

section \<open>Required fields and array items\<close>

lemma filter_single_mem: "filter P xs = [x] \<Longrightarrow> x \<in> set xs"
  by (metis filter_is_subset list.set_intros(1) subsetD)

lemma populated_array_items:
  "populated_array aa \<Longrightarrow> items aa = Some it \<Longrightarrow> 0 < presentCount it \<and> populated_field it"
  by (cases aa) simp

lemma summarized_populated:
  assumes "summarized agg fa T" and "populated_object agg"
  shows "0 < presentCount fa \<and> populated_field fa"
  using assms
proof (induction rule: summarized.induct)
  case (top k fa)
  then show ?case
    by (auto simp: populated_object_properties list_all_iff)
next
  case (nested fa T c oa k child)
  then have "ObjectVariant c oa \<in> set (variants fa)" "populated_field fa"
    by (auto dest: filter_single_mem)
  then have "populated_object oa"
    by (auto simp: populated_field_variants list_all_iff)
  with nested.hyps(4) show ?case
    by (auto simp: populated_object_properties list_all_iff)
next
  case (element fa T c aa it)
  then have "ArrayVariant c aa \<in> set (variants fa)" "populated_field fa"
    by (auto dest: filter_single_mem)
  then have "populated_array aa"
    by (auto simp: populated_field_variants list_all_iff)
  with element.hyps(3) show ?case
    by (simp add: populated_array_items)
qed

lemma distinct_Map_set: "distinct (map fst m) \<Longrightarrow> distinct (map fst (Map_set m k x))"
  by (auto simp: map_fst_Map_set)








text \<open>
  C10. For every field the summarizer is called on whose only non-null variant is an
  array: when the shared \<open>items\<close> aggregate is absent the \<open>items\<close> node of the summary is
  exactly \<open>{ type: "any" }\<close>, and otherwise the \<open>items\<close> sub-summary has \<open>required\<close> true,
  whatever the elements were.
\<close>

theorem array_items_summary:
  assumes "summarized (foldDocs docs) fa T"
    and "filter (\<lambda>v. kind v \<noteq> KNull) (variants fa) = [ArrayVariant c aa]"
  shows "(items aa = None \<longrightarrow>
            items_summary (summarizeField fa T)
              = Some (Summary ''any'' None None None None None None None))
    \<and> (items aa \<noteq> None \<longrightarrow>
          (\<exists>s. items_summary (summarizeField fa T) = Some s \<and> required s = Some True))"
proof -
  have "populated_field fa"
    using assms(1) summarized_populated populated_foldDocs by blast
  moreover have "ArrayVariant c aa \<in> set (variants fa)"
    using assms(2) by (rule filter_single_mem)
  ultimately have "populated_array aa"
    by (auto simp: populated_field_variants list_all_iff)
  then have "0 < presentCount it" if "items aa = Some it" for it
    using that by (simp add: populated_array_items)
  then show ?thesis
    by (auto simp: summarizeField_array [OF assms(2)] summarizeField_required)
qed

theorem array_items_summary_witness:
  "summarized (foldDocs [[(''tags'', VArray [VString ''x''])], [(''tags'', VArray [])]])
     (FieldAgg 2 [ArrayVariant 2 (ArrayAgg 2 1 (Some (FieldAgg 1 [Plain LString 1])))]) 2
   \<and> filter (\<lambda>v. kind v \<noteq> KNull)
       (variants (FieldAgg 2 [ArrayVariant 2 (ArrayAgg 2 1 (Some (FieldAgg 1 [Plain LString 1])))]))
     = [ArrayVariant 2 (ArrayAgg 2 1 (Some (FieldAgg 1 [Plain LString 1])))]
   \<and> (\<exists>s. items_summary (summarizeField
          (FieldAgg 2 [ArrayVariant 2 (ArrayAgg 2 1 (Some (FieldAgg 1 [Plain LString 1])))]) 2)
          = Some s \<and> required s = Some True)
   \<and> summarized (foldDocs [[(''tags'', VArray [])]])
       (FieldAgg 1 [ArrayVariant 1 (ArrayAgg 1 1 None)]) 1
   \<and> items_summary (summarizeField (FieldAgg 1 [ArrayVariant 1 (ArrayAgg 1 1 None)]) 1)
       = Some (Summary ''any'' None None None None None None None)"
proof -
  let ?docs = "[[(''tags'', VArray [VString ''x''])], [(''tags'', VArray [])]]"
  let ?aa = "ArrayAgg 2 1 (Some (FieldAgg 1 [Plain LString 1]))"
  let ?fa = "FieldAgg 2 [ArrayVariant 2 ?aa]"
  have agg: "foldDocs ?docs = ObjectAgg 2 [(''tags'', ?fa)]"
    by code_simp
  have s: "summarized (foldDocs ?docs) ?fa (totalSeen (foldDocs ?docs))"
    by (rule summarized.top [of "''tags''"]) (simp add: agg)
  then have s': "summarized (foldDocs ?docs) ?fa 2" by (simp add: agg)
  have f: "filter (\<lambda>v. kind v \<noteq> KNull) (variants ?fa) = [ArrayVariant 2 ?aa]" by simp
  have agg0: "foldDocs [[(''tags'', VArray [])]]
      = ObjectAgg 1 [(''tags'', FieldAgg 1 [ArrayVariant 1 (ArrayAgg 1 1 None)])]"
    by code_simp
  have s0: "summarized (foldDocs [[(''tags'', VArray [])]])
      (FieldAgg 1 [ArrayVariant 1 (ArrayAgg 1 1 None)]) (totalSeen (foldDocs [[(''tags'', VArray [])]]))"
    by (rule summarized.top [of "''tags''"]) (simp add: agg0)
  then have s0': "summarized (foldDocs [[(''tags'', VArray [])]])
      (FieldAgg 1 [ArrayVariant 1 (ArrayAgg 1 1 None)]) 1" by (simp add: agg0)
  have f0: "filter (\<lambda>v. kind v \<noteq> KNull) (variants (FieldAgg 1 [ArrayVariant 1 (ArrayAgg 1 1 None)]))
      = [ArrayVariant 1 (ArrayAgg 1 1 None)]" by simp
  from array_items_summary [OF s' f] array_items_summary [OF s0' f0] s' f s0'
  show ?thesis by simp
qed

section \<open>The fold is a homomorphism into the merge\<close>

lemma merge_stats_assoc:
  "merge_stats (merge_stats a b) c = merge_stats a (merge_stats b c)"
  by (auto simp: merge_stats_def)

lemma merge_stats_neutral [simp]:
  "merge_stats a (0, 0, True) = a" "merge_stats (0, 0, True) a = a"
  by (simp_all add: merge_stats_def)

lemma stats_of_values_Nil [simp]: "stats_of_values kd [] = (0, 0, True)"
  by (simp add: stats_of_values_def)

lemma stats_of_values_append:
  "stats_of_values kd (xs @ ys) = merge_stats (stats_of_values kd xs) (stats_of_values kd ys)"
  by (simp add: stats_of_values_def merge_stats_def)

lemma stats_of_values_mset:
  assumes "mset xs = mset ys"
  shows "stats_of_values kd xs = stats_of_values kd ys"
proof -
  have "length xs = length ys" using assms by (rule mset_eq_length)
  moreover have "mset (filter (\<lambda>v. detectKind v = kd) xs) = mset (filter (\<lambda>v. detectKind v = kd) ys)"
    using assms by simp
  then have "length (filter (\<lambda>v. detectKind v = kd) xs) = length (filter (\<lambda>v. detectKind v = kd) ys)"
    by (rule mset_eq_length)
  moreover have "set xs = set ys" using assms by (rule mset_eq_setD)
  ultimately show ?thesis
    by (simp add: stats_of_values_def list_all_iff)
qed

lemma stats_at_None [simp]: "stats_at kd None = (0, 0, True)"
  by (simp add: stats_at_def presentCount_at_def count_at_def integerOnly_at_def)

lemma lookup_makeFieldAgg: "stats_at kd (lookup_field makeFieldAgg p) = (0, 0, True)"
proof (cases p)
  case Nil
  then show ?thesis
    by (simp add: stats_at_def presentCount_at_def count_at_def integerOnly_at_def makeFieldAgg_def)
next
  case (Cons s p')
  then show ?thesis
    by (cases s) (simp_all add: object_of_def array_of_def makeFieldAgg_def)
qed

lemma object_of_addValueSample:
  "object_of (addValueSample fa v) =
     (case v of
        VObject es \<Rightarrow>
          (let oa = (case object_of fa of Some oa \<Rightarrow> oa | None \<Rightarrow> makeObjectAgg)
           in Some (ObjectAgg (totalSeen oa + 1) (addProperties (properties oa) es)))
      | _ \<Rightarrow> object_of fa)"
proof (cases "detectKind v = KObject")
  case False
  then have "\<And>es. v \<noteq> VObject es" by auto
  with False show ?thesis
    by (cases v) (simp_all add: object_of_def find_variants_addValueSample)
next
  case True
  then obtain es where v: "v = VObject es" by (auto simp: detectKind_object_iff)
  show ?thesis
  proof (cases "find (\<lambda>x. kind x = KObject) (variants fa)")
    case None
    then show ?thesis
      by (simp add: v object_of_def find_variants_addValueSample)
  next
    case (Some x)
    then have "kind x = KObject" by (auto dest: find_mem)
    then obtain c oa where "x = ObjectVariant c oa" by (auto simp: kind_object_iff)
    with Some show ?thesis
      by (simp add: v object_of_def find_variants_addValueSample)
  qed
qed

lemma array_of_addValueSample:
  "array_of (addValueSample fa v) =
     (case v of
        VArray els \<Rightarrow>
          (let aa = (case array_of fa of Some aa \<Rightarrow> aa | None \<Rightarrow> makeArrayAgg)
           in Some (if els = []
                then ArrayAgg (arrayTotalSeen aa + 1) (emptyCount aa + 1) (items aa)
                else ArrayAgg (arrayTotalSeen aa + 1) (emptyCount aa)
                  (Some (addItems (case items aa of None \<Rightarrow> makeFieldAgg | Some it \<Rightarrow> it) els))))
      | _ \<Rightarrow> array_of fa)"
proof (cases "detectKind v = KArray")
  case False
  then have "\<And>es. v \<noteq> VArray es" by auto
  with False show ?thesis
    by (cases v) (simp_all add: array_of_def find_variants_addValueSample)
next
  case True
  then obtain els where v: "v = VArray els" by (auto simp: detectKind_array_iff)
  show ?thesis
  proof (cases "find (\<lambda>x. kind x = KArray) (variants fa)")
    case None
    then show ?thesis
      by (simp add: v array_of_def find_variants_addValueSample)
  next
    case (Some x)
    then have "kind x = KArray" by (auto dest: find_mem)
    then obtain c aa where "x = ArrayVariant c aa" by (auto simp: kind_array_iff)
    with Some show ?thesis
      by (simp add: v array_of_def find_variants_addValueSample)
  qed
qed

lemma stats_here:
  "stats_at kd (Some (addValueSample fa v)) =
     merge_stats (stats_at kd (Some fa)) (stats_of_values kd [v])"
proof -
  have c: "count_at kd (Some (addValueSample fa v))
      = count_at kd (Some fa) + (if detectKind v = kd then 1 else 0)"
    by (auto simp: count_at_def find_variants_addValueSample split: option.splits)
  have i: "integerOnly_at (Some (addValueSample fa v)) = (integerOnly_at (Some fa) \<and> integral v)"
  proof (cases "detectKind v = KNumber")
    case False
    then have "integral v" by (cases v) (simp_all add: integral_def)
    with False show ?thesis
      by (simp add: integerOnly_at_def find_variants_addValueSample)
  next
    case True
    then obtain n where v: "v = VNumber n" by (auto simp: detectKind_number_iff)
    show ?thesis
    proof (cases "find (\<lambda>x. kind x = KNumber) (variants fa)")
      case None
      then show ?thesis
        by (simp add: v integerOnly_at_def find_variants_addValueSample integral_def)
    next
      case (Some x)
      then have "kind x = KNumber" by (auto dest: find_mem)
      then obtain c io where "x = NumberVariant c io" by (auto simp: kind_number_iff)
      with Some show ?thesis
        by (simp add: v integerOnly_at_def find_variants_addValueSample integral_def)
    qed
  qed
  show ?thesis
    by (simp add: stats_at_def merge_stats_def stats_of_values_def c i presentCount_at_def)
qed

lemma via_simps [simp]: "via None p = None" "via (Some fa) p = lookup_field fa p"
  by (simp_all add: via_def)

lemma stats_addItems:
  assumes "\<And>el fa. el \<in> set els \<Longrightarrow>
      stats_at kd (lookup_field (addValueSample fa el) p)
        = merge_stats (stats_at kd (lookup_field fa p)) (stats_of_values kd (values_at p el))"
  shows "stats_at kd (lookup_field (addItems fa els) p)
    = merge_stats (stats_at kd (lookup_field fa p))
        (stats_of_values kd (concat (map (values_at p) els)))"
  using assms
proof (induction els arbitrary: fa)
  case Nil
  then show ?case by simp
next
  case (Cons el els)
  have "stats_at kd (lookup_field (addItems (addValueSample fa el) els) p)
    = merge_stats (stats_at kd (lookup_field (addValueSample fa el) p))
        (stats_of_values kd (concat (map (values_at p) els)))"
    using Cons.IH Cons.prems by simp
  then show ?case
    using Cons.prems [of el fa]
    by (simp add: stats_of_values_append merge_stats_assoc)
qed

lemma stats_addProperties:
  assumes "\<And>e fa. e \<in> set es \<Longrightarrow>
      stats_at kd (lookup_field (addValueSample fa (snd e)) p)
        = merge_stats (stats_at kd (lookup_field fa p)) (stats_of_values kd (values_at p (snd e)))"
  shows "stats_at kd (via (Map_get (addProperties props es) k) p)
    = merge_stats (stats_at kd (via (Map_get props k) p))
        (stats_of_values kd
           (concat (map (\<lambda>e. if fst e = k then values_at p (snd e) else []) es)))"
  using assms
proof (induction es arbitrary: props)
  case Nil
  then show ?case by simp
next
  case (Cons e es)
  obtain k1 v1 where e: "e = (k1, v1)" by (cases e)
  define child where "child = (case Map_get props k1 of None \<Rightarrow> makeFieldAgg | Some c \<Rightarrow> c)"
  define props1 where "props1 = Map_set props k1 (addValueSample child v1)"
  have rest: "stats_at kd (via (Map_get (addProperties props1 es) k) p)
    = merge_stats (stats_at kd (via (Map_get props1 k) p))
        (stats_of_values kd
           (concat (map (\<lambda>e. if fst e = k then values_at p (snd e) else []) es)))"
    using Cons.IH Cons.prems by simp
  have first: "stats_at kd (via (Map_get props1 k) p)
    = merge_stats (stats_at kd (via (Map_get props k) p))
        (stats_of_values kd (if k1 = k then values_at p v1 else []))"
  proof (cases "k1 = k")
    case False
    then show ?thesis by (auto simp: props1_def Map_get_Map_set)
  next
    case True
    have "stats_at kd (lookup_field child p) = stats_at kd (via (Map_get props k) p)"
      by (simp add: child_def True lookup_makeFieldAgg split: option.splits)
    then show ?thesis
      using Cons.prems [of e child] True
      by (simp add: props1_def Map_get_Map_set e)
  qed
  show ?case
    using rest first
    by (simp add: e child_def [symmetric] props1_def [symmetric] Let_def
          stats_of_values_append merge_stats_assoc)
qed

lemma stats_addValueSample_step:
  assumes obj: "\<And>es e fa p. v = VObject es \<Longrightarrow> e \<in> set es \<Longrightarrow>
      stats_at kd (lookup_field (addValueSample fa (snd e)) p)
        = merge_stats (stats_at kd (lookup_field fa p)) (stats_of_values kd (values_at p (snd e)))"
    and arr: "\<And>els el fa p. v = VArray els \<Longrightarrow> el \<in> set els \<Longrightarrow>
      stats_at kd (lookup_field (addValueSample fa el) p)
        = merge_stats (stats_at kd (lookup_field fa p)) (stats_of_values kd (values_at p el))"
  shows "stats_at kd (lookup_field (addValueSample fa v) p)
    = merge_stats (stats_at kd (lookup_field fa p)) (stats_of_values kd (values_at p v))"
proof (cases p)
  case Nil
  then show ?thesis by (simp add: stats_here)
next
  case (Cons s p')
  show ?thesis
  proof (cases s)
    case (Key k)
    show ?thesis
    proof (cases "\<exists>es. v = VObject es")
      case False
      then have "object_of (addValueSample fa v) = object_of fa" "values_at (Key k # p') v = []"
        by (cases v; simp add: object_of_addValueSample)+
      then show ?thesis by (simp add: Cons Key)
    next
      case True
      then obtain es where v: "v = VObject es" by blast
      define oa where "oa = (case object_of fa of Some oa \<Rightarrow> oa | None \<Rightarrow> makeObjectAgg)"
      have before: "lookup_field fa (Key k # p') = via (Map_get (properties oa) k) p'"
        by (simp add: oa_def makeObjectAgg_def via_def split: option.splits)
      have after: "lookup_field (addValueSample fa v) (Key k # p')
          = via (Map_get (addProperties (properties oa) es) k) p'"
        by (simp add: v object_of_addValueSample oa_def [symmetric] Let_def via_def
              split: option.splits)
      show ?thesis
        unfolding Cons Key before after
        using stats_addProperties [of es kd p' "properties oa" k, OF obj [OF v]]
        by (simp add: v)
    qed
  next
    case Element
    show ?thesis
    proof (cases "\<exists>els. v = VArray els")
      case False
      then have "array_of (addValueSample fa v) = array_of fa" "values_at (Element # p') v = []"
        by (cases v; simp add: array_of_addValueSample)+
      then show ?thesis by (simp add: Cons Element)
    next
      case True
      then obtain els where v: "v = VArray els" by blast
      define aa where "aa = (case array_of fa of Some aa \<Rightarrow> aa | None \<Rightarrow> makeArrayAgg)"
      define it where "it = (case items aa of None \<Rightarrow> makeFieldAgg | Some f \<Rightarrow> f)"
      have before: "stats_at kd (lookup_field fa (Element # p')) = stats_at kd (lookup_field it p')"
        by (simp add: aa_def it_def makeArrayAgg_def lookup_makeFieldAgg split: option.splits)
      show ?thesis
      proof (cases "els = []")
        case True
        then have "lookup_field (addValueSample fa v) (Element # p') = via (items aa) p'"
          by (simp add: v array_of_addValueSample aa_def [symmetric] Let_def via_def
                split: option.splits)
        moreover have "stats_at kd (via (items aa) p') = stats_at kd (lookup_field it p')"
          by (simp add: it_def lookup_makeFieldAgg split: option.splits)
        ultimately show ?thesis
          using before True by (simp add: Cons Element v)
      next
        case False
        then have "lookup_field (addValueSample fa v) (Element # p') = lookup_field (addItems it els) p'"
          by (simp add: v array_of_addValueSample aa_def [symmetric] it_def [symmetric] Let_def)
        then show ?thesis
          using before stats_addItems [of els kd p' it, OF arr [OF v]]
          by (simp add: Cons Element v)
      qed
    qed
  qed
qed

lemma stats_addValueSample:
  "stats_at kd (lookup_field (addValueSample fa v) p)
    = merge_stats (stats_at kd (lookup_field fa p)) (stats_of_values kd (values_at p v))"
proof (induction v arbitrary: fa p)
  case (VArray els)
  show ?case
    by (rule stats_addValueSample_step) (use VArray in auto)
next
  case (VObject es)
  show ?case
  proof (rule stats_addValueSample_step)
    fix es' e fa' p'
    assume "VObject es = VObject es'" "e \<in> set es'"
    then show "stats_at kd (lookup_field (addValueSample fa' (snd e)) p')
        = merge_stats (stats_at kd (lookup_field fa' p')) (stats_of_values kd (values_at p' (snd e)))"
      using VObject.IH [of e "snd e" fa' p'] by (cases e) auto
  qed simp
qed (rule stats_addValueSample_step; simp)+

lemma stats_addObjectSample:
  "stats_at kd (field_at (addObjectSample agg doc) k p)
    = merge_stats (stats_at kd (field_at agg k p))
        (stats_of_values kd (values_at (Key k # p) (VObject doc)))"
  using stats_addProperties [of doc kd p "properties agg" k, OF stats_addValueSample]
  by (simp add: field_at_def addObjectSample_def via_def)

lemma stats_fold:
  "stats_at kd (field_at (fold (\<lambda>d a. addObjectSample a d) docs agg) k p)
    = merge_stats (stats_at kd (field_at agg k p))
        (stats_of_values kd (concat (map (\<lambda>d. values_at (Key k # p) (VObject d)) docs)))"
proof (induction docs arbitrary: agg)
  case Nil
  then show ?case by simp
next
  case (Cons d docs)
  show ?case
    by (simp add: Cons.IH stats_addObjectSample stats_of_values_append merge_stats_assoc
          del: values_at.simps)
qed

lemma stats_foldDocs:
  "stats_at kd (field_at (foldDocs docs) k p)
    = stats_of_values kd (concat (map (\<lambda>d. values_at (Key k # p) (VObject d)) docs))"
proof -
  have "stats_at kd (field_at makeObjectAgg k p) = (0, 0, True)"
    by (simp add: field_at_def makeObjectAgg_def)
  then show ?thesis
    by (simp add: foldDocs_def stats_fold del: values_at.simps)
qed

lemma mset_concat_map:
  "mset (concat (map f xs)) = (\<Sum>x\<in>#mset xs. mset (f x))"
  by (induction xs) simp_all

text \<open>
  C1. For every partition of a multiset of documents into two groups and every position
  and kind, the statistics of the fold of all documents are the merge of the statistics
  of the folds of the two groups; and the statistics of a fold do not depend on the
  order of the documents.
\<close>

theorem fold_is_monoid_homomorphism:
  assumes "mset docs = mset group1 + mset group2" and "mset docs' = mset docs"
  shows "stats_at kd (field_at (foldDocs docs) k p)
      = merge_stats (stats_at kd (field_at (foldDocs group1) k p))
          (stats_at kd (field_at (foldDocs group2) k p))
    \<and> stats_at kd (field_at (foldDocs docs') k p) = stats_at kd (field_at (foldDocs docs) k p)"
proof -
  let ?f = "\<lambda>d. values_at (Key k # p) (VObject d)"
  have "mset (concat (map ?f docs)) = mset (concat (map ?f group1) @ concat (map ?f group2))"
    by (simp add: mset_concat_map assms(1) del: values_at.simps)
  then have "stats_of_values kd (concat (map ?f docs))
      = stats_of_values kd (concat (map ?f group1) @ concat (map ?f group2))"
    by (rule stats_of_values_mset)
  moreover have "mset (concat (map ?f docs')) = mset (concat (map ?f docs))"
    by (simp add: mset_concat_map assms(2) del: values_at.simps)
  then have "stats_of_values kd (concat (map ?f docs')) = stats_of_values kd (concat (map ?f docs))"
    by (rule stats_of_values_mset)
  ultimately show ?thesis
    by (simp add: stats_foldDocs stats_of_values_append del: values_at.simps)
qed

theorem fold_is_monoid_homomorphism_witness:
  "mset [[(''a'', VNumber (Finite 1))], [(''a'', VNumber (Finite (1 / 2)))], [(''a'', VString ''x'')]]
     = mset [[(''a'', VString ''x'')], [(''a'', VNumber (Finite 1))]]
       + mset [[(''a'', VNumber (Finite (1 / 2)))]]
   \<and> mset [[(''a'', VNumber (Finite (1 / 2)))], [(''a'', VString ''x'')], [(''a'', VNumber (Finite 1))]]
     = mset [[(''a'', VNumber (Finite 1))], [(''a'', VNumber (Finite (1 / 2)))], [(''a'', VString ''x'')]]
   \<and> stats_at KNumber (field_at (foldDocs
        [[(''a'', VNumber (Finite 1))], [(''a'', VNumber (Finite (1 / 2)))], [(''a'', VString ''x'')]])
        ''a'' [])
     = merge_stats
         (stats_at KNumber (field_at (foldDocs
            [[(''a'', VString ''x'')], [(''a'', VNumber (Finite 1))]]) ''a'' []))
         (stats_at KNumber (field_at (foldDocs [[(''a'', VNumber (Finite (1 / 2)))]]) ''a'' []))
   \<and> stats_at KNumber (field_at (foldDocs
        [[(''a'', VNumber (Finite (1 / 2)))], [(''a'', VString ''x'')], [(''a'', VNumber (Finite 1))]])
        ''a'' [])
     = stats_at KNumber (field_at (foldDocs
        [[(''a'', VNumber (Finite 1))], [(''a'', VNumber (Finite (1 / 2)))], [(''a'', VString ''x'')]])
        ''a'' [])
   \<and> stats_at KNumber (field_at (foldDocs
        [[(''a'', VString ''x'')], [(''a'', VNumber (Finite 1))]]) ''a'' []) = (2, 1, True)
   \<and> stats_at KNumber (field_at (foldDocs [[(''a'', VNumber (Finite (1 / 2)))]]) ''a'' [])
     = (1, 1, False)"
proof -
  let ?d1 = "[(''a'', VNumber (Finite 1))]"
  let ?d2 = "[(''a'', VNumber (Finite (1 / 2)))]"
  let ?d3 = "[(''a'', VString ''x'')]"
  have p: "mset [?d1, ?d2, ?d3] = mset [?d3, ?d1] + mset [?d2]"
    by (simp add: add_mset_commute)
  have q: "mset [?d2, ?d3, ?d1] = mset [?d1, ?d2, ?d3]"
    by (simp add: add_mset_commute)
  have g1: "stats_at KNumber (field_at (foldDocs [?d3, ?d1]) ''a'' []) = (2, 1, True)"
    by code_simp
  have g2: "stats_at KNumber (field_at (foldDocs [?d2]) ''a'' []) = (1, 1, False)"
    by code_simp
  from fold_is_monoid_homomorphism [OF p q, of KNumber "''a''" "[]"] p q g1 g2
  show ?thesis by simp
qed

section \<open>The two passes of the linter\<close>

lemma pushExample_length: "length arr \<le> limit \<Longrightarrow> length (pushExample arr v limit) \<le> limit"
  by (simp add: pushExample_def)

lemma pushExample_nonempty: "0 < limit \<Longrightarrow> pushExample arr v limit \<noteq> []"
  by (cases arr) (simp_all add: pushExample_def)

lemma pushExample_keeps: "arr \<noteq> [] \<Longrightarrow> pushExample arr v limit \<noteq> []"
  by (simp add: pushExample_def)

lemma capped_noteMissing:
  "capped limit m \<Longrightarrow> capped limit (noteMissing expectedList present docId limit m)"
proof (induction expectedList arbitrary: m)
  case Nil
  then show ?case by simp
next
  case (Cons f expectedList)
  show ?case
  proof (cases "f \<in> set present")
    case True
    with Cons show ?thesis by simp
  next
    case False
    define arr where "arr = (case Map_get m f of None \<Rightarrow> [] | Some a \<Rightarrow> a)"
    have "length arr \<le> limit"
      using Cons.prems by (auto simp: arr_def capped_def split: option.splits)
    then have "capped limit (Map_set m f (pushExample arr docId limit))"
      using Cons.prems by (auto simp: capped_def Map_get_Map_set pushExample_length)
    then show ?thesis
      using False Cons.IH by (simp add: arr_def Let_def)
  qed
qed

lemma filled_noteMissing_keeps:
  "filled f m \<Longrightarrow> filled f (noteMissing expectedList present docId limit m)"
proof (induction expectedList arbitrary: m)
  case Nil
  then show ?case by simp
next
  case (Cons g expectedList)
  show ?case
  proof (cases "g \<in> set present")
    case True
    with Cons show ?thesis by simp
  next
    case False
    define arr where "arr = (case Map_get m g of None \<Rightarrow> [] | Some a \<Rightarrow> a)"
    have "filled f (Map_set m g (pushExample arr docId limit))"
      using Cons.prems
      by (auto simp: filled_def Map_get_Map_set arr_def pushExample_keeps)
    then show ?thesis
      using False Cons.IH by (simp add: arr_def Let_def)
  qed
qed

lemma filled_noteMissing:
  "f \<in> set expectedList \<Longrightarrow> f \<notin> set present \<Longrightarrow> 0 < limit \<Longrightarrow>
   filled f (noteMissing expectedList present docId limit m)"
proof (induction expectedList arbitrary: m)
  case Nil
  then show ?case by simp
next
  case (Cons g expectedList)
  show ?case
  proof (cases "g = f")
    case True
    define arr where "arr = (case Map_get m f of None \<Rightarrow> [] | Some a \<Rightarrow> a)"
    have "filled f (Map_set m f (pushExample arr docId limit))"
      using Cons.prems(3) by (simp add: filled_def Map_get_Map_set pushExample_nonempty)
    then have "filled f (noteMissing expectedList present docId limit
        (Map_set m f (pushExample arr docId limit)))"
      by (rule filled_noteMissing_keeps)
    then show ?thesis
      using True Cons.prems(2) by (simp add: arr_def Let_def)
  next
    case False
    then have "f \<in> set expectedList" using Cons.prems(1) by simp
    then show ?thesis
      using Cons.IH Cons.prems(2,3) by (simp add: Let_def)
  qed
qed

lemma capped_pass2: "capped (EXAMPLES_PER_ISSUE cfg) (pass2_missingExamples cfg docs expectedList)"
proof -
  have "capped limit m \<Longrightarrow>
      capped limit (fold (\<lambda>doc me. noteMissing expectedList (flat_keys doc) (doc_id doc) limit me)
        docs m)" for limit m
    by (induction docs arbitrary: m) (simp_all add: capped_noteMissing)
  from this [of "EXAMPLES_PER_ISSUE cfg" "[]"] show ?thesis
    by (simp add: pass2_missingExamples_def capped_def flat_keys_def)
qed

lemma filled_fold_keeps:
  "filled f m \<Longrightarrow>
   filled f (fold (\<lambda>doc me. noteMissing expectedList (flat_keys doc) (doc_id doc) limit me) docs m)"
  by (induction docs arbitrary: m) (simp_all add: filled_noteMissing_keeps)

lemma filled_fold:
  assumes "d \<in> set docs" "f \<notin> set (flat_keys d)" "f \<in> set expectedList" "0 < limit"
  shows "filled f
    (fold (\<lambda>doc me. noteMissing expectedList (flat_keys doc) (doc_id doc) limit me) docs m)"
  using assms(1)
proof (induction docs arbitrary: m)
  case Nil
  then show ?case by simp
next
  case (Cons d' docs)
  show ?case
  proof (cases "d' = d")
    case True
    have "filled f (noteMissing expectedList (flat_keys d) (doc_id d) limit m)"
      using assms(2,3,4) by (simp add: filled_noteMissing)
    then show ?thesis
      using True by (simp add: filled_fold_keeps)
  next
    case False
    then have "d \<in> set docs" using Cons.prems by simp
    then show ?thesis using Cons.IH by simp
  qed
qed

lemma filled_pass2:
  assumes "d \<in> set docs" "f \<notin> set (flat_keys d)" "f \<in> set expectedList"
    "0 < EXAMPLES_PER_ISSUE cfg"
  shows "filled f (pass2_missingExamples cfg docs expectedList)"
  using filled_fold [OF assms(1,2,3,4), of "[]"]
  by (simp add: pass2_missingExamples_def flat_keys_def)

lemma checkRule_presentCount:
  "checkRule cfg docId k v stat = Inr stat' \<Longrightarrow> stat_presentCount stat' = stat_presentCount stat"
  by (auto simp: checkRule_def split: option.splits if_splits sum.splits)


lemma countFields_Cons:
  "countFields cfg docId ((k, v) # flat) stats =
     (case checkRule cfg docId k v
        (FieldStat
           (stat_presentCount (case Map_get stats k of None \<Rightarrow> makeFieldStat | Some s \<Rightarrow> s) + 1)
           (Map_set (stat_kinds (case Map_get stats k of None \<Rightarrow> makeFieldStat | Some s \<Rightarrow> s))
              (kind_name (detectKind v))
              ((case Map_get (stat_kinds (case Map_get stats k of None \<Rightarrow> makeFieldStat | Some s \<Rightarrow> s))
                      (kind_name (detectKind v)) of None \<Rightarrow> 0 | Some n \<Rightarrow> n) + 1))
           (stat_regexViolations (case Map_get stats k of None \<Rightarrow> makeFieldStat | Some s \<Rightarrow> s))) of
        Inl err \<Rightarrow> Inl err
      | Inr stat \<Rightarrow> countFields cfg docId flat (Map_set stats k stat))"
  by (simp add: Let_def)

lemma count_of_countFields:
  "countFields cfg docId flat stats = Inr stats' \<Longrightarrow>
   count_of stats f + (if f \<in> fst ` set flat then 1 else 0) \<le> count_of stats' f"
proof (induction flat arbitrary: stats)
  case Nil
  then show ?case by simp
next
  case (Cons e flat)
  obtain k v where e: "e = (k, v)" by (cases e)
  define stat where "stat = (case Map_get stats k of None \<Rightarrow> makeFieldStat | Some s \<Rightarrow> s)"
  define stat1 where "stat1 = FieldStat (stat_presentCount stat + 1)
     (Map_set (stat_kinds stat) (kind_name (detectKind v))
        ((case Map_get (stat_kinds stat) (kind_name (detectKind v)) of None \<Rightarrow> 0 | Some n \<Rightarrow> n) + 1))
     (stat_regexViolations stat)"
  have unfold: "countFields cfg docId (e # flat) stats =
      (case checkRule cfg docId k v stat1 of
         Inl err \<Rightarrow> Inl err
       | Inr stat2 \<Rightarrow> countFields cfg docId flat (Map_set stats k stat2))"
    unfolding e countFields_Cons stat1_def stat_def ..
  from Cons.prems obtain stat2 where c: "checkRule cfg docId k v stat1 = Inr stat2"
    and rest: "countFields cfg docId flat (Map_set stats k stat2) = Inr stats'"
    unfolding unfold by (auto split: sum.splits)
  have pc: "stat_presentCount stat2 = stat_presentCount stat + 1"
    using checkRule_presentCount [OF c] by (simp add: stat1_def)
  have step: "count_of (Map_set stats k stat2) f = count_of stats f + (if f = k then 1 else 0)"
    using pc
    by (auto simp: count_of_def Map_get_Map_set stat_def makeFieldStat_def split: option.splits)
  have "count_of (Map_set stats k stat2) f + (if f \<in> fst ` set flat then 1 else 0)
      \<le> count_of stats' f"
    using rest by (rule Cons.IH)
  moreover have "(if f \<in> fst ` set (e # flat) then 1 else 0)
      \<le> (if f = k then 1 else 0) + (if f \<in> fst ` set flat then 1 else (0::nat))"
    by (auto simp: e)
  ultimately show ?case
    using step by linarith
qed

lemma distinct_countFields:
  "countFields cfg docId flat stats = Inr stats' \<Longrightarrow> distinct (map fst stats) \<Longrightarrow>
   distinct (map fst stats')"
proof (induction flat arbitrary: stats)
  case Nil
  then show ?case by simp
next
  case (Cons e flat)
  obtain k v where e: "e = (k, v)" by (cases e)
  from Cons.prems(1) obtain stat2 where
    rest: "countFields cfg docId flat (Map_set stats k stat2) = Inr stats'"
    unfolding e countFields_Cons by (auto split: sum.splits)
  from Cons.IH [OF rest] Cons.prems(2) show ?case
    by (simp add: distinct_Map_set)
qed






lemma pass1_scan:
  "scanDocs (pass1_onDoc cfg) docs st = Inr st' \<Longrightarrow> distinct (map fst (fst st)) \<Longrightarrow>
   distinct (map fst (fst st'))
   \<and> snd st' = snd st + length docs
   \<and> count_of (fst st) f + length (filter (\<lambda>d. f \<in> set (flat_keys d)) docs)
        \<le> count_of (fst st') f"
proof (induction docs arbitrary: st)
  case Nil
  then show ?case by simp
next
  case (Cons d docs)
  from Cons.prems(1) obtain st1 where o: "pass1_onDoc cfg d st = Inr st1"
    and r: "scanDocs (pass1_onDoc cfg) docs st1 = Inr st'"
    by (auto split: sum.splits)
  from o obtain stats1 where
    cf: "countFields cfg (doc_id d) (flattenDoc (VObject (doc_data d)) [] []) (fst st) = Inr stats1"
    and st1: "st1 = (stats1, snd st + 1)"
    by (auto simp: pass1_onDoc_def Let_def split: sum.splits)
  have d1: "distinct (map fst (fst st1))"
    using distinct_countFields [OF cf Cons.prems(2)] st1 by simp
  have c1: "count_of (fst st) f + (if f \<in> set (flat_keys d) then 1 else 0)
      \<le> count_of (fst st1) f"
    using count_of_countFields [OF cf, of f] st1 by (simp add: flat_keys_def)
  from Cons.IH [OF r d1] c1 st1 show ?case
    by auto
qed

lemma pass1_facts:
  assumes "pass1_buildStats cfg docs = Inr p1"
  shows "distinct (map fst (fieldStats p1))"
    and "totalDocs p1 = length docs"
    and "docsScanned p1 = length docs"
    and "length (filter (\<lambda>d. f \<in> set (flat_keys d)) docs) \<le> count_of (fieldStats p1) f"
proof -
  from assms obtain st where s: "scanDocs (pass1_onDoc cfg) docs ([], 0) = Inr st"
    and p1: "p1 = Pass1 (fst st) (snd st) (length docs)"
    by (auto simp: pass1_buildStats_def split: sum.splits)
  from pass1_scan [OF s, of f]
  show "distinct (map fst (fieldStats p1))"
    and "totalDocs p1 = length docs"
    and "docsScanned p1 = length docs"
    and "length (filter (\<lambda>d. f \<in> set (flat_keys d)) docs) \<le> count_of (fieldStats p1) f"
    by (simp_all add: p1 count_of_def)
qed

lemma some_doc_lacks:
  assumes "pass1_buildStats cfg docs = Inr p1"
    and "count_of (fieldStats p1) f < length docs"
  shows "\<exists>d \<in> set docs. f \<notin> set (flat_keys d)"
proof (rule ccontr)
  assume "\<not> (\<exists>d \<in> set docs. f \<notin> set (flat_keys d))"
  then have "filter (\<lambda>d. f \<in> set (flat_keys d)) docs = docs"
    by (simp add: filter_id_conv)
  with pass1_facts(4) [OF assms(1), of f] assms(2) show False by simp
qed

section \<open>Missing-field issues\<close>

lemma set_map_filter:
  "set (List.map_filter f xs) = {y. \<exists>x \<in> set xs. f x = Some y}"
  by (induction xs) (auto simp: map_filter_simps split: option.splits)

lemma missing_issues_run:
  assumes "pass1_buildStats cfg docs = Inr p1"
  shows "missing_issues (run cfg docs) =
     (let expectedFields = expectedFieldsOf cfg p1;
          missingExamples =
            (if length expectedFields > 0 then pass2_missingExamples cfg docs expectedFields
             else [])
      in sort_key (\<lambda>i. - missing_count i)
           (List.map_filter (missingIssueOf (totalDocs p1) missingExamples)
              (sort_key (\<lambda>f. - present_pct f)
                 (filter (\<lambda>f. present_pct f \<ge> REQUIRED_THRESHOLD cfg)
                    (fieldRows (totalDocs p1) (fieldStats p1))))))"
  by (simp add: run_def assms buildReport_def missing_issues_def Let_def)

lemma expected_fields_run:
  "pass1_buildStats cfg docs = Inr p1 \<Longrightarrow> expected_fields cfg docs = expectedFieldsOf cfg p1"
  by (simp add: expected_fields_def)

lemma issue_origin:
  assumes "i \<in> set (missing_issues (run cfg docs))"
  obtains p1 e where "pass1_buildStats cfg docs = Inr p1"
    and "e \<in> set (fieldStats p1)"
    and "issue_field i = fst e"
    and "missing_count i = int (length docs) - int (stat_presentCount (snd e))"
    and "0 < missing_count i"
    and "examples_of i =
      (case Map_get
         (if length (expectedFieldsOf cfg p1) > 0
          then pass2_missingExamples cfg docs (expectedFieldsOf cfg p1)
          else []) (fst e) of None \<Rightarrow> [] | Some a \<Rightarrow> a)"
proof -
  from assms obtain p1 where p1: "pass1_buildStats cfg docs = Inr p1"
    by (cases "pass1_buildStats cfg docs") (simp_all add: run_def missing_issues_def)
  define me where "me = (if length (expectedFieldsOf cfg p1) > 0
          then pass2_missingExamples cfg docs (expectedFieldsOf cfg p1)
          else [])"
  from assms obtain row where row: "row \<in> set (fieldRows (length docs) (fieldStats p1))"
    and mk: "missingIssueOf (length docs) me row = Some i"
    by (auto simp: missing_issues_run [OF p1] Let_def set_map_filter pass1_facts [OF p1] me_def)
  from row obtain e where e: "e \<in> set (fieldStats p1)"
    and f: "field row = fst e" and c: "present_count row = stat_presentCount (snd e)"
    by (auto simp: fieldRows_def Let_def)
  from mk have "issue_field i = fst e"
    "missing_count i = int (length docs) - int (stat_presentCount (snd e))"
    "0 < missing_count i"
    "examples_of i = (case Map_get me (fst e) of None \<Rightarrow> [] | Some a \<Rightarrow> a)"
    by (auto simp: missingIssueOf_def Let_def f c examples_of_def split: if_splits option.splits)
  with p1 e show ?thesis
    using that by (simp add: me_def)
qed

lemma Map_get_distinct: "distinct (map fst m) \<Longrightarrow> (k, x) \<in> set m \<Longrightarrow> Map_get m k = Some x"
  by (induction m) (auto simp: rev_image_eqI)

text \<open>
  C6, as amended. For every missing-field issue of a run and every cap
  \<open>EXAMPLES_PER_ISSUE\<close>, the example ids of the issue are at most that many and the
  deficit count of the issue is positive; when the cap is at least 1 and the field is
  among the expected fields the run computed after pass 1, the example ids are not empty.
\<close>

theorem missing_examples_bound:
  assumes "i \<in> set (missing_issues (run cfg docs))"
  shows "length (examples_of i) \<le> EXAMPLES_PER_ISSUE cfg
    \<and> 0 < missing_count i
    \<and> (1 \<le> EXAMPLES_PER_ISSUE cfg
         \<and> issue_field i \<in> set (expected_fields cfg docs)
        \<longrightarrow> examples_of i \<noteq> [])"
proof -
  from assms obtain p1 e where p1: "pass1_buildStats cfg docs = Inr p1"
    and e: "e \<in> set (fieldStats p1)"
    and f: "issue_field i = fst e"
    and mc: "missing_count i = int (length docs) - int (stat_presentCount (snd e))"
    and pos: "0 < missing_count i"
    and ex: "examples_of i =
      (case Map_get
         (if length (expectedFieldsOf cfg p1) > 0
          then pass2_missingExamples cfg docs (expectedFieldsOf cfg p1)
          else []) (fst e) of None \<Rightarrow> [] | Some a \<Rightarrow> a)"
    by (rule issue_origin)
  let ?exp = "expectedFieldsOf cfg p1"
  let ?me = "if length ?exp > 0 then pass2_missingExamples cfg docs ?exp else []"
  have "capped (EXAMPLES_PER_ISSUE cfg) ?me"
    by (simp add: capped_pass2) (simp add: capped_def)
  then have bound: "length (examples_of i) \<le> EXAMPLES_PER_ISSUE cfg"
    by (auto simp: ex capped_def split: option.splits)
  have nonempty: "examples_of i \<noteq> []"
    if n: "1 \<le> EXAMPLES_PER_ISSUE cfg" and inexp': "issue_field i \<in> set (expected_fields cfg docs)"
  proof -
    from inexp' have inexp: "issue_field i \<in> set ?exp"
      by (simp add: expected_fields_run [OF p1])
    have "Map_get (fieldStats p1) (fst e) = Some (snd e)"
      using e pass1_facts(1) [OF p1] Map_get_distinct [of _ "fst e" "snd e"] by simp
    then have "count_of (fieldStats p1) (fst e) = stat_presentCount (snd e)"
      by (simp add: count_of_def)
    then have "count_of (fieldStats p1) (fst e) < length docs"
      using mc pos by simp
    then obtain d where d: "d \<in> set docs" "fst e \<notin> set (flat_keys d)"
      using some_doc_lacks [OF p1] by blast
    have "filled (fst e) (pass2_missingExamples cfg docs ?exp)"
      using d inexp n by (intro filled_pass2 [of d]) (simp_all add: f)
    moreover have "?exp \<noteq> []" using inexp by auto
    ultimately show ?thesis
      by (auto simp: ex filled_def)
  qed
  from bound pos nonempty show ?thesis by blast
qed

theorem missing_examples_bound_witness:
  "MissingIssue ''b'' 2 (1 / 2) (Some [''d2'', ''d3''])
     \<in> set (missing_issues (run (Config (1 / 2) (1 / 20) 2 (STRING_REGEX_RULES CONFIG))
         [Snapshot ''d1'' [(''a'', VNull), (''b'', VNull)], Snapshot ''d2'' [(''a'', VNull)],
          Snapshot ''d3'' [(''a'', VNull)], Snapshot ''d4'' [(''b'', VNull)]]))
   \<and> 1 \<le> EXAMPLES_PER_ISSUE (Config (1 / 2) (1 / 20) 2 (STRING_REGEX_RULES CONFIG))
   \<and> issue_field (MissingIssue ''b'' 2 (1 / 2) (Some [''d2'', ''d3'']))
       \<in> set (expected_fields (Config (1 / 2) (1 / 20) 2 (STRING_REGEX_RULES CONFIG))
         [Snapshot ''d1'' [(''a'', VNull), (''b'', VNull)], Snapshot ''d2'' [(''a'', VNull)],
          Snapshot ''d3'' [(''a'', VNull)], Snapshot ''d4'' [(''b'', VNull)]])
   \<and> length (examples_of (MissingIssue ''b'' 2 (1 / 2) (Some [''d2'', ''d3''])))
       \<le> EXAMPLES_PER_ISSUE (Config (1 / 2) (1 / 20) 2 (STRING_REGEX_RULES CONFIG))
   \<and> examples_of (MissingIssue ''b'' 2 (1 / 2) (Some [''d2'', ''d3''])) \<noteq> []"
proof -
  let ?cfg = "Config (1 / 2) (1 / 20) 2 (STRING_REGEX_RULES CONFIG)"
  let ?docs = "[Snapshot ''d1'' [(''a'', VNull), (''b'', VNull)], Snapshot ''d2'' [(''a'', VNull)],
          Snapshot ''d3'' [(''a'', VNull)], Snapshot ''d4'' [(''b'', VNull)]]"
  have r: "missing_issues (run ?cfg ?docs)
      = [MissingIssue ''b'' 2 (1 / 2) (Some [''d2'', ''d3'']), MissingIssue ''a'' 1 (1 / 4) (Some [''d4''])]"
    by code_simp
  have m: "MissingIssue ''b'' 2 (1 / 2) (Some [''d2'', ''d3''])
      \<in> set (missing_issues (run ?cfg ?docs))"
    by (simp add: r)
  have x: "expected_fields ?cfg ?docs = [''a'', ''b'']"
    by code_simp
  from missing_examples_bound [OF m] m x show ?thesis by simp
qed

text \<open>
  C6 as stated fails for the cap 0: the issue is emitted with a positive deficit and
  \<open>pushExample\<close> never stores an id.
\<close>

theorem missing_examples_counterexample:
  "run (Config (1 / 2) (1 / 20) 0 (STRING_REGEX_RULES CONFIG))
     [Snapshot ''d1'' [(''a'', VNull), (''b'', VNull)],
      Snapshot ''d2'' [(''a'', VNull), (''b'', VNull)], Snapshot ''d3'' [(''b'', VNull)]]
   = Inr (Report 3 3 (1 / 2) (1 / 20) 0 2 2 1 (Some [MissingIssue ''a'' 1 (3333 / 10000) None]))
   \<and> 0 < missing_count (MissingIssue ''a'' 1 (3333 / 10000) None)
   \<and> examples_of (MissingIssue ''a'' 1 (3333 / 10000) None) = []"
proof -
  have "run (Config (1 / 2) (1 / 20) 0 (STRING_REGEX_RULES CONFIG))
     [Snapshot ''d1'' [(''a'', VNull), (''b'', VNull)],
      Snapshot ''d2'' [(''a'', VNull), (''b'', VNull)], Snapshot ''d3'' [(''b'', VNull)]]
   = Inr (Report 3 3 (1 / 2) (1 / 20) 0 2 2 1 (Some [MissingIssue ''a'' 1 (3333 / 10000) None]))"
    by code_simp
  then show ?thesis by (simp add: examples_of_def)
qed

lemma toFixed4_mono: "x \<le> y \<Longrightarrow> toFixed4 x \<le> toFixed4 y"
  by (simp add: toFixed4_def divide_right_mono floor_mono)

lemma examples_in_noteMissing:
  "distinct expectedList \<Longrightarrow>
   examples_in (noteMissing expectedList present docId limit m) f =
     (if f \<in> set expectedList \<and> f \<notin> set present
      then pushExample (examples_in m f) docId limit
      else examples_in m f)"
proof (induction expectedList arbitrary: m)
  case Nil
  then show ?case by simp
next
  case (Cons g expectedList)
  show ?case
  proof (cases "g \<in> set present")
    case True
    with Cons show ?thesis by auto
  next
    case False
    define m1 where "m1 = Map_set m g (pushExample (examples_in m g) docId limit)"
    have m1: "examples_in m1 f = (if f = g then pushExample (examples_in m g) docId limit
        else examples_in m f)"
      by (simp add: m1_def examples_in_def Map_get_Map_set)
    have "noteMissing (g # expectedList) present docId limit m
        = noteMissing expectedList present docId limit m1"
      using False by (simp add: m1_def examples_in_def Let_def)
    then show ?thesis
      using Cons.IH [of m1] Cons.prems m1 False by auto
  qed
qed

lemma pushExample_take: "pushExample (take limit a) v limit = take limit (a @ [v])"
proof (cases "length a < limit")
  case True
  then show ?thesis by (simp add: pushExample_def)
next
  case False
  then show ?thesis by (simp add: pushExample_def)
qed

lemma examples_in_fold:
  assumes "distinct expectedList" "f \<in> set expectedList"
  shows "examples_in m f = take limit a \<Longrightarrow>
    examples_in
      (fold (\<lambda>doc me. noteMissing expectedList (flat_keys doc) (doc_id doc) limit me) docs m) f
    = take limit (a @ lacking f docs)"
proof (induction docs arbitrary: m a)
  case Nil
  then show ?case by (simp add: lacking_def)
next
  case (Cons d docs)
  have "examples_in (noteMissing expectedList (flat_keys d) (doc_id d) limit m) f
      = take limit (a @ (if f \<notin> set (flat_keys d) then [doc_id d] else []))"
    using assms Cons.prems by (simp add: examples_in_noteMissing pushExample_take)
  from Cons.IH [OF this] show ?case
    by (simp add: lacking_def del: take_append)
qed

lemma examples_in_pass2:
  assumes "distinct expectedList" "f \<in> set expectedList"
  shows "examples_in (pass2_missingExamples cfg docs expectedList) f
    = take (EXAMPLES_PER_ISSUE cfg) (lacking f docs)"
  using examples_in_fold [OF assms, of "[]" "EXAMPLES_PER_ISSUE cfg" "[]" docs]
  by (simp add: pass2_missingExamples_def flat_keys_def examples_in_def)

lemma distinct_expectedFieldsOf:
  "pass1_buildStats cfg docs = Inr p1 \<Longrightarrow> distinct (expectedFieldsOf cfg' p1)"
  using pass1_facts(1) [of cfg docs p1]
  by (simp add: expectedFieldsOf_def distinct_map_filter)

text \<open>
  What the missing-field check does for a threshold that has at most four decimals, as
  the shipped 0.9 has, in a run whose pass 1 ends: every field of pass 1 whose presence
  fraction reaches the threshold and that some document lacks has an issue, with the
  deficit count, the rounded deficit fraction and the ids of the first
  \<open>EXAMPLES_PER_ISSUE\<close> documents that lack it.
\<close>

lemma missing_issue_emitted:
  assumes grid: "toFixed4 (REQUIRED_THRESHOLD cfg) = REQUIRED_THRESHOLD cfg"
    and p1: "pass1_buildStats cfg docs = Inr p1"
    and st: "(f, st) \<in> set (fieldStats p1)"
    and expected: "REQUIRED_THRESHOLD cfg \<le> pct (stat_presentCount st) (length docs)"
    and deficit: "stat_presentCount st < length docs"
  shows "\<exists>i \<in> set (missing_issues (run cfg docs)).
      issue_field i = f
      \<and> missing_count i = int (length docs) - int (stat_presentCount st)
      \<and> missing_pct i
          = toFixed4 (of_int (int (length docs) - int (stat_presentCount st)) / of_nat (length docs))
      \<and> examples_of i = take (EXAMPLES_PER_ISSUE cfg) (lacking f docs)"
proof -
  let ?exp = "expectedFieldsOf cfg p1"
  define me where "me = (if length ?exp > 0 then pass2_missingExamples cfg docs ?exp else [])"
  have inexp: "f \<in> set ?exp"
    using st expected by (force simp: expectedFieldsOf_def pass1_facts [OF p1])
  define mkrow where "mkrow = (\<lambda>e :: string \<times> fieldStat.
      FieldRow (fst e) (stat_presentCount (snd e))
        (toFixed4 (pct (stat_presentCount (snd e)) (length docs))) (stat_kinds (snd e))
        (if length (filter (\<lambda>k. k \<noteq> ''null'') (map fst (stat_kinds (snd e)))) > 1
         then Some True else None))"
  define row where "row = mkrow (f, st)"
  have "fieldRows (length docs) (fieldStats p1) = map mkrow (fieldStats p1)"
    by (simp add: fieldRows_def mkrow_def Let_def)
  then have row: "row \<in> set (fieldRows (length docs) (fieldStats p1))"
    using st by (simp add: row_def)
  have rf: "field row = f" and rc: "present_count row = stat_presentCount st"
    and rp: "present_pct row = toFixed4 (pct (stat_presentCount st) (length docs))"
    by (simp_all add: row_def mkrow_def)
  have "REQUIRED_THRESHOLD cfg \<le> present_pct row"
    using toFixed4_mono [OF expected] grid rp by simp
  then have kept: "row \<in> set (filter (\<lambda>r. present_pct r \<ge> REQUIRED_THRESHOLD cfg)
      (fieldRows (length docs) (fieldStats p1)))"
    using row by simp
  obtain i where mk: "missingIssueOf (length docs) me row = Some i"
    using deficit rc by (simp add: missingIssueOf_def Let_def)
  have "i \<in> set (List.map_filter (missingIssueOf (length docs) me)
      (sort_key (\<lambda>r. - present_pct r)
         (filter (\<lambda>r. present_pct r \<ge> REQUIRED_THRESHOLD cfg)
            (fieldRows (length docs) (fieldStats p1)))))"
    unfolding set_map_filter using kept mk by (simp del: set_filter) blast
  then have mem: "i \<in> set (missing_issues (run cfg docs))"
    by (simp add: missing_issues_run [OF p1] Let_def pass1_facts [OF p1] me_def)
  have ex: "examples_in me f = take (EXAMPLES_PER_ISSUE cfg) (lacking f docs)"
    using inexp examples_in_pass2 [OF distinct_expectedFieldsOf [OF p1] inexp, of cfg]
    by (auto simp: me_def)
  have "issue_field i = f"
    "missing_count i = int (length docs) - int (stat_presentCount st)"
    "missing_pct i
       = toFixed4 (of_int (int (length docs) - int (stat_presentCount st)) / of_nat (length docs))"
    "examples_of i = examples_in me f"
    using mk deficit
    by (auto simp: missingIssueOf_def Let_def rf rc examples_of_def examples_in_def
          split: if_splits option.splits)
  with mem ex show ?thesis
    by (intro bexI [of _ i]) simp_all
qed

text \<open>
  C5 at a failing input. With the threshold 0.33333 and three documents of which one has
  the field \<open>a\<close>, the presence fraction 1/3 reaches the threshold: the run puts \<open>a\<close> among
  the expected fields and pass 2 collects the two documents that lack it. \<open>buildReport\<close>
  filters on the fraction rounded to four decimals, 0.3333, which is below the
  threshold, and the report has no missing-field issue at all.
\<close>

theorem expected_field_without_issue:
  "pct 1 3 \<ge> REQUIRED_THRESHOLD (Config (33333 / 100000) (1 / 20) 20 (STRING_REGEX_RULES CONFIG))
   \<and> expected_fields (Config (33333 / 100000) (1 / 20) 20 (STRING_REGEX_RULES CONFIG))
        [Snapshot ''d1'' [(''a'', VNull), (''b'', VNull)],
         Snapshot ''d2'' [(''b'', VNull)], Snapshot ''d3'' [(''b'', VNull)]]
       = [''a'', ''b'']
   \<and> pass2_missingExamples (Config (33333 / 100000) (1 / 20) 20 (STRING_REGEX_RULES CONFIG))
        [Snapshot ''d1'' [(''a'', VNull), (''b'', VNull)],
         Snapshot ''d2'' [(''b'', VNull)], Snapshot ''d3'' [(''b'', VNull)]] [''a'', ''b'']
       = [(''a'', [''d2'', ''d3''])]
   \<and> run (Config (33333 / 100000) (1 / 20) 20 (STRING_REGEX_RULES CONFIG))
        [Snapshot ''d1'' [(''a'', VNull), (''b'', VNull)],
         Snapshot ''d2'' [(''b'', VNull)], Snapshot ''d3'' [(''b'', VNull)]]
       = Inr (Report 3 3 (33333 / 100000) (1 / 20) 20 2 1 0 None)"
proof -
  let ?cfg = "Config (33333 / 100000) (1 / 20) 20 (STRING_REGEX_RULES CONFIG)"
  let ?docs = "[Snapshot ''d1'' [(''a'', VNull), (''b'', VNull)],
         Snapshot ''d2'' [(''b'', VNull)], Snapshot ''d3'' [(''b'', VNull)]]"
  have a: "pct 1 3 \<ge> REQUIRED_THRESHOLD ?cfg"
    by (simp add: pct_def)
  have b: "expected_fields ?cfg ?docs = [''a'', ''b'']"
    by code_simp
  have c: "pass2_missingExamples ?cfg ?docs [''a'', ''b''] = [(''a'', [''d2'', ''d3''])]"
    by code_simp
  have d: "run ?cfg ?docs = Inr (Report 3 3 (33333 / 100000) (1 / 20) 20 2 1 0 None)"
    by code_simp
  from a b c d show ?thesis by blast
qed

text \<open>
  The same rounding in the other direction, with the options as shipped: 1808 of 2009
  documents is a fraction below 0.9 that rounds to 0.9. The run has no expected field, so
  pass 2 is skipped, and \<open>buildReport\<close> emits the issue without an example.
\<close>

lemma toFixed4_1808_2009: "toFixed4 (1808 / 2009) = 9 / 10"
  by (simp add: toFixed4_def floor_eq_iff)

lemma toFixed4_201_2009: "toFixed4 (201 / 2009) = 1 / 10"
  by (simp add: toFixed4_def floor_eq_iff)

lemma rounded_fraction_issue_without_examples:
  "pct 1808 2009 < REQUIRED_THRESHOLD (Config (9 / 10) (1 / 20) 20 (STRING_REGEX_RULES CONFIG))
   \<and> expectedFieldsOf (Config (9 / 10) (1 / 20) 20 (STRING_REGEX_RULES CONFIG))
        (Pass1 [(''a'', FieldStat 1808 [(''string'', 1808)] [])] 2009 2009) = []
   \<and> buildReport (Config (9 / 10) (1 / 20) 20 (STRING_REGEX_RULES CONFIG)) 2009 2009
        [(''a'', FieldStat 1808 [(''string'', 1808)] [])] []
       = Report 2009 2009 (9 / 10) (1 / 20) 20 1 1 1
           (Some [MissingIssue ''a'' 201 (1 / 10) None])"
proof -
  let ?cfg = "Config (9 / 10) (1 / 20) 20 (STRING_REGEX_RULES CONFIG)"
  have a: "pct 1808 2009 < REQUIRED_THRESHOLD ?cfg"
    by (simp add: pct_def)
  have b: "expectedFieldsOf ?cfg
        (Pass1 [(''a'', FieldStat 1808 [(''string'', 1808)] [])] 2009 2009) = []"
    by (simp add: expectedFieldsOf_def pct_def)
  have c: "buildReport ?cfg 2009 2009
        [(''a'', FieldStat 1808 [(''string'', 1808)] [])] []
       = Report 2009 2009 (9 / 10) (1 / 20) 20 1 1 1
           (Some [MissingIssue ''a'' 201 (1 / 10) None])"
    by (simp add: buildReport_def fieldRows_def missingIssueOf_def pct_def
          toFixed4_1808_2009 toFixed4_201_2009 List.map_filter_def Let_def)
  from a b c show ?thesis by blast
qed

section \<open>The run and its configuration\<close>

text \<open>
  The two shipped rules accept a well-formed date and time and reject other strings, and
  the rule lookup answers for a field named like a member of \<open>Object.prototype\<close>.
\<close>

lemma shipped_rules_examples:
  "regex_date ''2024-02-29''" "\<not> regex_date ''29/02/2024''" "\<not> regex_date ''2024-02-29 ''"
  "regex_time ''23:59''" "regex_time ''07:05''" "\<not> regex_time ''24:00''" "\<not> regex_time ''7:05''"
  by (simp_all add: regex_date_def regex_time_def digit_def)

lemma lookup_rule_examples:
  "lookup_rule (STRING_REGEX_RULES CONFIG) ''date'' = Some (Rule (Some regex_date) (Some ''YYYY-MM-DD''))"
  "lookup_rule (STRING_REGEX_RULES CONFIG) ''name'' = None"
  "lookup_rule (STRING_REGEX_RULES CONFIG) ''constructor'' = Some (Rule None None)"
  by (simp_all add: lookup_rule_def CONFIG_def Object_prototype_def)




end
